theory Spec2Isabelle
  imports Main "HOL-Library.Multiset"
begin

section \<open>Key event bitmaps and key states\<close>

text \<open>
  The three kinds of key event, in the order of KeyEventBitmapIndex. A KeyEventBitmap is
  a JavaScript array of three booleans indexed by them.
\<close>

datatype KeyEventBitmapIndex = keydown | keypress | keyup

datatype KeyEventBitmap = Bitmap bool bool bool

fun getBit :: "KeyEventBitmap \<Rightarrow> KeyEventBitmapIndex \<Rightarrow> bool" where
  "getBit (Bitmap d p u) keydown = d"
| "getBit (Bitmap d p u) keypress = p"
| "getBit (Bitmap d p u) keyup = u"

text \<open>
  Modelled from the spec: KeyEventBitmapManager.setBit (lib/KeyEventBitmapManager is not
  under src/). It sets one flag of the three-flag set to true.
\<close>

fun setBit :: "KeyEventBitmap \<Rightarrow> KeyEventBitmapIndex \<Rightarrow> KeyEventBitmap" where
  "setBit (Bitmap d p u) keydown = Bitmap True p u"
| "setBit (Bitmap d p u) keypress = Bitmap d True u"
| "setBit (Bitmap d p u) keyup = Bitmap d p True"

text \<open>
  Modelled from the spec: KeyEventBitmapManager.newBitmap (lib/KeyEventBitmapManager is
  not under src/). The spec describes a bitset as "a 3-bit flag set over {keydown,
  keypress, keyup}, recording whether that event kind has fired for this occurrence of
  the key", whose bits in current are "monotonically set within one combination's
  lifetime", and a combination as matching when "every key in its key-dictionary
  currently has that event kind active". _addToCurrentKeyCombination makes the current
  bitmap anew from the kind of the event alone: the bitmap made for a kind records that
  kind and the kinds that fire before it for one occurrence of a key (keydown, then
  keypress, then keyup). Without an argument the new bitmap has no flag set.
\<close>

fun newBitmap :: "KeyEventBitmapIndex option \<Rightarrow> KeyEventBitmap" where
  "newBitmap None = Bitmap False False False"
| "newBitmap (Some keydown) = Bitmap True False False"
| "newBitmap (Some keypress) = Bitmap True True False"
| "newBitmap (Some keyup) = Bitmap True True True"

text \<open>
  Modelled from the spec: KeyEventBitmapManager.clone (not under src/), a copy of a bitmap.
\<close>

definition clone :: "KeyEventBitmap \<Rightarrow> KeyEventBitmap" where
  "clone b = b"

text \<open>
  The state of one key is the array [previous, current] of two bitmaps
  (KeyEventSequenceIndex.previous = 0, KeyEventSequenceIndex.current = 1).
\<close>

type_synonym KeyState = "KeyEventBitmap \<times> KeyEventBitmap"

definition previous :: "KeyState \<Rightarrow> KeyEventBitmap" where
  "previous st = fst st"

definition current :: "KeyState \<Rightarrow> KeyEventBitmap" where
  "current st = snd st"

section \<open>Data model\<close>

text \<open>
  A KeyCombinationRecord: the dictionary of the keys pressed together (a JavaScript object
  read by key name only in this model, hence a map) and the serialisations of the
  combination. The names of keys are those that keyboard events and key maps carry, none
  of which is the name of a property of Object.prototype: the dictionaries keyed by them,
  and by the ids and prefixes made of them, are read for their own properties. The names
  of actions and handlers are any strings, and for the dictionaries keyed by them the
  inherited properties are modelled.
\<close>

record KeyCombinationRecord =
  keys :: "string \<rightharpoonup> KeyState"
  ids :: "string list"

text \<open>The keyboard event: only its key is read. Handlers are opaque callbacks.\<close>

record KeyboardEvent =
  key :: string

datatype Handler = Handler nat

record HandlerOptions =
  ignoreEventsCondition :: "KeyboardEvent \<Rightarrow> bool"

text \<open>
  The combination part of a key matcher, as the sequence parser returns it, with the
  prefix and the length of the sequence it ends.
\<close>

record KeyCombinationMatcher =
  prefix :: string
  sequenceLength :: nat
  combinationId :: string
  keyDictionary :: "string list"
  combinationSize :: nat

record ActionConfiguration = KeyCombinationMatcher +
  actionName :: string
  eventBitmapIndex :: KeyEventBitmapIndex

text \<open>
  What a resolved combination holds for one kind of event. The handler is what
  componentList[i].handlers[actionName] held when it was bound: undefined is None.
\<close>

datatype EventBinding =
  EventBinding (boundActionName: string) (boundEventBitmapIndex: KeyEventBitmapIndex)
    (boundHandler: "Handler option")

record CombinationEntry = KeyCombinationMatcher +
  events :: "KeyEventBitmapIndex \<rightharpoonup> EventBinding"

text \<open>
  A JavaScript object whose own keys are enumerated (Object.keys, Object.values) is a list
  of its entries in the order of that enumeration. The group of the combinations that
  follow one prefix, and the order in which they are tried (undefined until computed):
\<close>

record SequenceGroup =
  combinations :: "(string \<times> CombinationEntry) list"
  combinationOrder :: "string list option"

record KeyMap =
  sequences :: "(string \<times> SequenceGroup) list option"
  eventBitmap :: "KeyEventBitmap option"
  keyMapLongestSequence :: "nat option"

record ComponentOptions =
  actions :: "(string \<times> ActionConfiguration list) list"
  handlers :: "(string \<times> Handler) list"
  componentId :: nat

record EventPropagationState =
  previousComponentIndex :: nat
  actionHandled :: bool
  ignoreEvent :: bool

record CurrentEvent =
  currentKey :: "string option"
  currentType :: "KeyEventBitmapIndex option"
  handled :: bool

text \<open>The state that _resetHandlerResolutionState resets.\<close>

record HandlerResolutionState =
  keyMaps :: "KeyMap list option"
  searchIndex :: nat
  unmatchedHandlerStatus :: "(int \<times> string list) list option"
  handlersDictionary :: "string \<rightharpoonup> nat list"
  keySequencesDictionary :: "string \<rightharpoonup> (nat \<times> KeyEventBitmapIndex) list"

text \<open>
  What the strategy does to the outside: the handlers it calls and the evaluations of the
  caller's ignoreEventsCondition, in order.
\<close>

datatype Effect = HandlerCalled Handler KeyboardEvent | IgnoreConditionEvaluated KeyboardEvent

type_synonym SimulatedKeypress = "KeyboardEvent \<times> nat \<times> nat \<times> HandlerOptions"

text \<open>
  The fields of a FocusOnlyKeyEventStrategy. nextComponentId is this.componentId,
  keyEventCounter is the id of KeyEventCounter, effects is the trace of calls out.
\<close>

record Strategy =
  focusTreeId :: nat
  nextComponentId :: nat
  resetOnNextFocus :: bool
  componentList :: "ComponentOptions list"
  longestSequence :: nat
  longestSequenceComponentIndex :: "nat option"
  keyMapEventBitmap :: KeyEventBitmap
  resolution :: HandlerResolutionState
  keyCombinationIncludesKeyUp :: bool
  keypressEventsToSimulate :: "SimulatedKeypress list"
  keyCombinationHistory :: "KeyCombinationRecord list"
  eventPropagationState :: EventPropagationState
  currentEvent :: CurrentEvent
  keyEventCounter :: nat
  effects :: "Effect list"

text \<open>
  The collaborators the two classes import: key names and their aliases, the serialiser
  of a combination, and the configuration option that asks for missing keypress events
  to be simulated.
\<close>

record Collaborators =
  normalizeKeyName :: "string \<Rightarrow> string"
  hasKeyPressEvent :: "string \<Rightarrow> bool"
  simulateMissingKeyPressEvents :: bool
  serialize :: "(string \<rightharpoonup> KeyState) \<Rightarrow> string list"
  resolveKeyAlias :: "string \<Rightarrow> string list"
  resolveShiftedAlias :: "string \<Rightarrow> string list"
  resolveAltedAlias :: "string \<Rightarrow> string list"
  resolveAltShiftedAlias :: "string \<Rightarrow> string list"

datatype error = TypeError

section \<open>Recording key events: the key combination history\<close>

definition emptyKeyCombination :: KeyCombinationRecord where
  "emptyKeyCombination = \<lparr>keys = Map.empty, ids = ['''']\<rparr>"

definition currentOf :: "KeyCombinationRecord list \<Rightarrow> KeyCombinationRecord" where
  "currentOf h = (if length h > 0 then last h else emptyKeyCombination)"

definition getCurrentKeyCombination :: "Strategy \<Rightarrow> KeyCombinationRecord" where
  "getCurrentKeyCombination s = currentOf (keyCombinationHistory s)"

definition addToCurrentKeyCombination ::
  "Collaborators \<Rightarrow> string \<Rightarrow> KeyEventBitmapIndex \<Rightarrow> Strategy \<Rightarrow> Strategy" where
  "addToCurrentKeyCombination C keyName bitmapIndex s =
    (let h = (if length (keyCombinationHistory s) = 0
              then keyCombinationHistory s @ [emptyKeyCombination]
              else keyCombinationHistory s);
         keyCombination = currentOf h;
         newKeys =
           (case keys keyCombination keyName of
              None \<Rightarrow> (keys keyCombination)(keyName \<mapsto> (newBitmap None, newBitmap (Some bitmapIndex)))
            | Some existingBitmap \<Rightarrow>
                (keys keyCombination)(keyName \<mapsto>
                   (clone (current existingBitmap), newBitmap (Some bitmapIndex))))
     in s\<lparr>keyCombinationHistory :=
            butlast h @ [keyCombination\<lparr>keys := newKeys, ids := serialize C newKeys\<rparr>]\<rparr>)"

definition withoutKeyUps :: "KeyCombinationRecord \<Rightarrow> (string \<rightharpoonup> KeyState)" where
  "withoutKeyUps keyCombinationRecord =
    (\<lambda>keyName. case keys keyCombinationRecord keyName of
        None \<Rightarrow> None
      | Some keyState \<Rightarrow> if \<not> getBit (current keyState) keyup then Some keyState else None)"

definition startNewKeyCombination ::
  "Collaborators \<Rightarrow> string \<Rightarrow> KeyEventBitmapIndex \<Rightarrow> Strategy \<Rightarrow> Strategy" where
  "startNewKeyCombination C keyName bitmapIndex s =
    (let h = (if length (keyCombinationHistory s) > longestSequence s
              then tl (keyCombinationHistory s)
              else keyCombinationHistory s);
         lastKeyCombination = currentOf h;
         newKeys = (withoutKeyUps lastKeyCombination)
                     (keyName \<mapsto> (newBitmap None, newBitmap (Some bitmapIndex)))
     in s\<lparr>keyCombinationHistory := h @ [\<lparr>keys = newKeys, ids = serialize C newKeys\<rparr>],
          keyCombinationIncludesKeyUp := False\<rparr>)"

section \<open>JavaScript objects with enumerated keys\<close>

text \<open>
  Object.keys and Object.values enumerate the own keys of an object with the array
  indices first ("0", "7", "12": canonical decimal numerals below 2^32 - 1) in ascending
  numeric order, and then the other string keys in the order of their insertion. An
  object is modelled as the list of its entries in that order, so that assigning a
  property puts a new key where the enumeration will find it.
\<close>

text \<open>
  The objects that the strategy uses as dictionaries are plain objects ({}), which
  inherit the properties of Object.prototype: reading such a dictionary at one of these
  names gives a function (or, for __proto__, the prototype), which is truthy, also when
  the dictionary has no own property of the name.
\<close>

definition objectPrototypeNames :: "string list" where
  "objectPrototypeNames =
    [''constructor'', ''__defineGetter__'', ''__defineSetter__'', ''hasOwnProperty'',
     ''__lookupGetter__'', ''__lookupSetter__'', ''isPrototypeOf'', ''propertyIsEnumerable'',
     ''toString'', ''valueOf'', ''__proto__'', ''toLocaleString'']"

fun position :: "'a \<Rightarrow> 'a list \<Rightarrow> nat option" where
  "position x [] = None"
| "position x (y # ys) = (if x = y then Some 0 else map_option Suc (position x ys))"

definition digitValue :: "char \<Rightarrow> nat option" where
  "digitValue c = position c ''0123456789''"

fun decimalValue :: "string \<Rightarrow> nat \<Rightarrow> nat option" where
  "decimalValue [] acc = Some acc"
| "decimalValue (c # cs) acc =
    (case digitValue c of None \<Rightarrow> None | Some d \<Rightarrow> decimalValue cs (10 * acc + d))"

definition arrayIndex :: "string \<Rightarrow> nat option" where
  "arrayIndex k =
    (if k = [] then None
     else if hd k = CHR ''0'' \<and> length k > 1 then None
     else (case decimalValue k 0 of
             None \<Rightarrow> None
           | Some n \<Rightarrow> if n < 4294967295 then Some n else None))"

fun insertProperty :: "string \<Rightarrow> 'v \<Rightarrow> (string \<times> 'v) list \<Rightarrow> (string \<times> 'v) list" where
  "insertProperty k v [] = [(k, v)]"
| "insertProperty k v ((k', v') # rest) =
    (case arrayIndex k of
       None \<Rightarrow> (k', v') # insertProperty k v rest
     | Some n \<Rightarrow>
        (case arrayIndex k' of
           None \<Rightarrow> (k, v) # (k', v') # rest
         | Some n' \<Rightarrow> if n < n' then (k, v) # (k', v') # rest
                      else (k', v') # insertProperty k v rest))"

text \<open>The assignment obj[k] = v: an existing key keeps its place.\<close>

definition putProperty :: "string \<Rightarrow> 'v \<Rightarrow> (string \<times> 'v) list \<Rightarrow> (string \<times> 'v) list" where
  "putProperty k v obj =
    (if map_of obj k \<noteq> None
     then map (\<lambda>(k', v'). if k' = k then (k', v) else (k', v')) obj
     else insertProperty k v obj)"

text \<open>
  The enumeration of the own keys: a key that is an array index comes before every key
  that is none and before every array index that is not smaller; a key that is no array
  index comes before keys that are no array indices only.
\<close>

definition enumeratedBefore :: "string \<Rightarrow> string \<Rightarrow> bool" where
  "enumeratedBefore k k' =
    (case arrayIndex k of
       None \<Rightarrow> arrayIndex k' = None
     | Some n \<Rightarrow> (case arrayIndex k' of None \<Rightarrow> True | Some n' \<Rightarrow> n \<le> n'))"

definition enumerationOrder :: "string list \<Rightarrow> bool" where
  "enumerationOrder ks = sorted_wrt enumeratedBefore ks"

text \<open>Reading an array element: undefined out of range.\<close>

definition nthOpt :: "'a list \<Rightarrow> nat \<Rightarrow> 'a option" where
  "nthOpt xs i = (if i < length xs then Some (xs ! i) else None)"

text \<open>Array.join(' '); an undefined element is joined as the empty string.\<close>

fun joinWords :: "string list \<Rightarrow> string" where
  "joinWords [] = []"
| "joinWords [w] = w"
| "joinWords (w # ws) = w @ '' '' @ joinWords ws"

section \<open>Resolving handlers\<close>

definition emptyKeyMap :: KeyMap where
  "emptyKeyMap = \<lparr>sequences = None, eventBitmap = None, keyMapLongestSequence = None\<rparr>"

text \<open>
  The start of _callMatchingHandlerClosestToEventTarget: one counter of unmatched
  handlers and one empty key map per component, unless both lists exist.
\<close>

definition initHandlerResolution ::
  "ComponentOptions list \<Rightarrow> HandlerResolutionState \<Rightarrow> HandlerResolutionState" where
  "initHandlerResolution cl r =
    (if keyMaps r = None \<or> unmatchedHandlerStatus r = None
     then r\<lparr>keyMaps := Some (map (\<lambda>c. emptyKeyMap) cl),
            unmatchedHandlerStatus := Some (map (\<lambda>c. (int (length (handlers c)), [])) cl)\<rparr>
     else r)"

text \<open>
  Object.keys(handlers).forEach: the component at searchIndex owns these handlers. For a
  name that the dictionary inherits and does not own, the array is not created and push
  is called on what is inherited, which throws; the state at the throw is the dictionary
  reached so far.
\<close>

fun recordHandlers ::
  "nat \<Rightarrow> string list \<Rightarrow> (string \<rightharpoonup> nat list) \<Rightarrow> error option \<times> (string \<rightharpoonup> nat list)" where
  "recordHandlers i [] d = (None, d)"
| "recordHandlers i (name # rest) d =
    (case d name of
       Some xs \<Rightarrow> recordHandlers i rest (d(name \<mapsto> xs @ [i]))
     | None \<Rightarrow>
        if name \<in> set objectPrototypeNames then (Some TypeError, d)
        else recordHandlers i rest (d(name \<mapsto> [i])))"

text \<open>
  One key matcher of an action, bound into the key map of the component that owns the
  handler (the body of keyMatchers.forEach), unless the same sequence and event kind
  already has a handler closer to the event target.
\<close>

definition bindMatcher ::
  "Handler option \<Rightarrow> nat \<Rightarrow> ActionConfiguration \<Rightarrow>
   KeyMap \<times> (string \<rightharpoonup> (nat \<times> KeyEventBitmapIndex) list) \<Rightarrow>
   KeyMap \<times> (string \<rightharpoonup> (nat \<times> KeyEventBitmapIndex) list)" where
  "bindMatcher handler handlerComponentIndex keyMatcher acc =
    (let keyMap = fst acc; dict = snd acc;
         keySequence = joinWords [prefix keyMatcher, combinationId keyMatcher];
         closestSequenceHandlerAlreadyFound =
           (case dict keySequence of
              None \<Rightarrow> False
            | Some entries \<Rightarrow> list_ex (\<lambda>dictEntry. snd dictEntry = eventBitmapIndex keyMatcher) entries)
     in if closestSequenceHandlerAlreadyFound then acc
        else
          (let seqs = (case sequences keyMap of None \<Rightarrow> [] | Some q \<Rightarrow> q);
               sequenceGroup =
                 (case map_of seqs (prefix keyMatcher) of
                    None \<Rightarrow> \<lparr>combinations = [], combinationOrder = None\<rparr>
                  | Some g \<Rightarrow> g);
               binding = EventBinding (actionName keyMatcher) (eventBitmapIndex keyMatcher) handler;
               entry =
                 (case map_of (combinations sequenceGroup) (combinationId keyMatcher) of
                    None \<Rightarrow>
                      \<lparr>prefix = prefix keyMatcher, sequenceLength = sequenceLength keyMatcher,
                       combinationId = combinationId keyMatcher,
                       keyDictionary = keyDictionary keyMatcher,
                       combinationSize = combinationSize keyMatcher,
                       events = [eventBitmapIndex keyMatcher \<mapsto> binding]\<rparr>
                  | Some combination \<Rightarrow>
                      combination\<lparr>events := (events combination)(eventBitmapIndex keyMatcher \<mapsto> binding)\<rparr>);
               sequenceGroup' =
                 sequenceGroup\<lparr>combinations :=
                   putProperty (combinationId keyMatcher) entry (combinations sequenceGroup)\<rparr>;
               bitmap = (case eventBitmap keyMap of None \<Rightarrow> newBitmap None | Some b \<Rightarrow> b);
               longest =
                 (case keyMapLongestSequence keyMap of
                    None \<Rightarrow> sequenceLength keyMatcher
                  | Some l \<Rightarrow> if l = 0 \<or> l < sequenceLength keyMatcher
                              then sequenceLength keyMatcher else l)
           in (keyMap\<lparr>sequences := Some (putProperty (prefix keyMatcher) sequenceGroup' seqs),
                     eventBitmap := Some (setBit bitmap (eventBitmapIndex keyMatcher)),
                     keyMapLongestSequence := Some longest\<rparr>,
               dict(keySequence \<mapsto>
                 (case dict keySequence of None \<Rightarrow> [] | Some entries \<Rightarrow> entries)
                   @ [(handlerComponentIndex, eventBitmapIndex keyMatcher)]))))"

text \<open>
  handlerComponentIndexArray.forEach: every component that defines a handler of the
  action has it counted as matched, once; the names counted are the keys of a plain
  object, which reads as true at an inherited name too. Reading the status of a
  component that has none throws.
\<close>

fun markHandlersMatched ::
  "string \<Rightarrow> nat list \<Rightarrow> (int \<times> string list) list \<Rightarrow> error option \<times> (int \<times> string list) list" where
  "markHandlersMatched name [] status = (None, status)"
| "markHandlersMatched name (i # rest) status =
    (case nthOpt status i of
       None \<Rightarrow> (Some TypeError, status)
     | Some handlerComponentStatus \<Rightarrow>
         if name \<in> set (snd handlerComponentStatus) \<or> name \<in> set objectPrototypeNames
         then markHandlersMatched name rest status
         else markHandlersMatched name rest
                (status[i := (fst handlerComponentStatus - 1, snd handlerComponentStatus @ [name])]))"

text \<open>
  The body of Object.keys(actions).forEach for one action: the state at a throw is the
  state reached so far. For an action name that the handlers dictionary inherits and does
  not own, what is read is truthy and has no element 0, so that the handlers of
  componentList[undefined] are read, which throws.
\<close>

definition bindAction ::
  "ComponentOptions list \<Rightarrow> string \<times> ActionConfiguration list \<Rightarrow> HandlerResolutionState \<Rightarrow>
   error option \<times> HandlerResolutionState" where
  "bindAction cl action r =
    (case handlersDictionary r (fst action) of
       None \<Rightarrow> if fst action \<in> set objectPrototypeNames then (Some TypeError, r) else (None, r)
     | Some handlerComponentIndexArray \<Rightarrow>
        (case (case handlerComponentIndexArray of [] \<Rightarrow> None | i # rest \<Rightarrow> nthOpt cl i) of
           None \<Rightarrow> (Some TypeError, r)
         | Some handlerComponent \<Rightarrow>
            (let handlerComponentIndex = hd handlerComponentIndexArray;
                 handler = map_of (handlers handlerComponent) (fst action)
             in case (case keyMaps r of None \<Rightarrow> None | Some kms \<Rightarrow> nthOpt kms handlerComponentIndex) of
                  None \<Rightarrow> (Some TypeError, r)
                | Some keyMap \<Rightarrow>
                   (let keyMap0 = (if sequences keyMap = None then keyMap\<lparr>sequences := Some []\<rparr> else keyMap);
                        bound = fold (bindMatcher handler handlerComponentIndex) (snd action)
                                  (keyMap0, keySequencesDictionary r);
                        r1 = r\<lparr>keyMaps := map_option (\<lambda>kms. kms[handlerComponentIndex := fst bound]) (keyMaps r),
                               keySequencesDictionary := snd bound\<rparr>
                    in case unmatchedHandlerStatus r1 of
                         None \<Rightarrow> (Some TypeError, r1)
                       | Some status \<Rightarrow>
                          (case markHandlersMatched (fst action) handlerComponentIndexArray status of
                             (e, status') \<Rightarrow> (e, r1\<lparr>unmatchedHandlerStatus := Some status'\<rparr>))))))"

fun bindActions ::
  "ComponentOptions list \<Rightarrow> (string \<times> ActionConfiguration list) list \<Rightarrow> HandlerResolutionState \<Rightarrow>
   error option \<times> HandlerResolutionState" where
  "bindActions cl [] r = (None, r)"
| "bindActions cl (action # rest) r =
    (case bindAction cl action r of
       (Some e, r') \<Rightarrow> (Some e, r')
     | (None, r') \<Rightarrow> bindActions cl rest r')"

text \<open>The body of the while loop, for the component at searchIndex.\<close>

definition resolveComponent ::
  "ComponentOptions list \<Rightarrow> HandlerResolutionState \<Rightarrow> error option \<times> HandlerResolutionState" where
  "resolveComponent cl r =
    (let component = cl ! searchIndex r;
         owners = recordHandlers (searchIndex r) (map fst (handlers component)) (handlersDictionary r);
         r1 = r\<lparr>handlersDictionary := snd owners\<rparr>
     in case fst owners of
          Some e \<Rightarrow> (Some e, r1)
        | None \<Rightarrow> bindActions cl (actions component) r1)"

lemma bindAction_searchIndex: "searchIndex (snd (bindAction cl action r)) = searchIndex r"
  by (simp add: bindAction_def Let_def split: option.splits prod.splits list.splits)

lemma bindActions_searchIndex: "searchIndex (snd (bindActions cl as r)) = searchIndex r"
proof (induction as arbitrary: r)
  case Nil
  show ?case by simp
next
  case (Cons a as)
  show ?case
  proof (cases "bindAction cl a r")
    case (Pair e r')
    have "searchIndex r' = searchIndex r"
      using bindAction_searchIndex [of cl a r] Pair by simp
    then show ?thesis
      using Pair Cons.IH [of r'] by (cases e) simp_all
  qed
qed

lemma resolveComponent_searchIndex: "searchIndex (snd (resolveComponent cl r)) = searchIndex r"
  by (simp add: resolveComponent_def Let_def bindActions_searchIndex split: option.splits)

lemma resolveComponent_searchIndex_eq:
  "(e, r') = resolveComponent cl r \<Longrightarrow> searchIndex r' = searchIndex r"
  using resolveComponent_searchIndex [of cl r] by (metis snd_conv)

text \<open>
  The while loop. The count of unmatched handlers it tests is the local copy taken
  before the loop, which the loop does not change: once entered, the loop runs to the end
  of componentList (or to a throw).
\<close>

function resolveLoop ::
  "ComponentOptions list \<Rightarrow> HandlerResolutionState \<Rightarrow> error option \<times> HandlerResolutionState" where
  "resolveLoop cl r =
    (if searchIndex r < length cl
     then (case resolveComponent cl r of
             (Some e, r') \<Rightarrow> (Some e, r')
           | (None, r') \<Rightarrow> resolveLoop cl (r'\<lparr>searchIndex := searchIndex r' + 1\<rparr>))
     else (None, r))"
  by pat_completeness auto
termination resolveLoop
  apply (relation "measure (\<lambda>(cl, r). length cl - searchIndex r)")
   apply simp
  apply (simp add: resolveComponent_searchIndex_eq)
  done

declare resolveLoop.simps [simp del]

section \<open>Matching the key combination history\<close>

text \<open>keyCombinationHistory.slice(-n, -1); slice(-0, -1) is slice(0, -1).\<close>

definition sliceBeforeLast :: "nat \<Rightarrow> 'a list \<Rightarrow> 'a list" where
  "sliceBeforeLast n h = butlast (if n = 0 then h else drop (length h - n) h)"

text \<open>
  _tryMatchSequenceWithKeyAliases. Its counters enumerate one id per step of the
  sequence, the last step changing fastest, an empty list of ids counting as one
  undefined id (joined as the empty string); idPermutations lists the choices in that
  order, and the first joined candidate that is a key of the sequences is returned with
  its group.
\<close>

fun idPermutations :: "string list list \<Rightarrow> string list list" where
  "idPermutations [] = [[]]"
| "idPermutations (idsAt # rest) =
    concat (map (\<lambda>i. map ((#) i) (idPermutations rest)) (if idsAt = [] then [[]] else idsAt))"

definition tryMatchSequenceWithKeyAliases ::
  "(string \<times> SequenceGroup) list \<Rightarrow> string list list \<Rightarrow> (string \<times> SequenceGroup) option" where
  "tryMatchSequenceWithKeyAliases keyMatcher sequenceIds =
    (let candidates = (if length sequenceIds = 0 then [[]] else map joinWords (idPermutations sequenceIds))
     in case List.find (\<lambda>candidateId. map_of keyMatcher candidateId \<noteq> None) candidates of
          None \<Rightarrow> None
        | Some candidateId \<Rightarrow> map_option (\<lambda>g. (candidateId, g)) (map_of keyMatcher candidateId))"

definition tryMatchWithKeyAliases :: "Collaborators \<Rightarrow> KeyCombinationRecord \<Rightarrow> string \<Rightarrow> string option" where
  "tryMatchWithKeyAliases C keyState candidateKeyName =
    (let candidateKeyNames =
       (if keys keyState ''Shift'' \<noteq> None
        then (if keys keyState ''Alt'' \<noteq> None
              then resolveAltShiftedAlias C candidateKeyName
              else resolveShiftedAlias C candidateKeyName)
        else (if keys keyState ''Alt'' \<noteq> None
              then resolveAltedAlias C candidateKeyName
              else resolveKeyAlias C candidateKeyName))
     in List.find (\<lambda>keyName. keys keyState keyName \<noteq> None) candidateKeyNames)"

definition keyNameAsItAppearsInKeyboardState ::
  "Collaborators \<Rightarrow> KeyCombinationRecord \<Rightarrow> string \<Rightarrow> string option" where
  "keyNameAsItAppearsInKeyboardState C keyboardState keyName =
    (if keys keyboardState keyName \<noteq> None then Some keyName
     else tryMatchWithKeyAliases C keyboardState keyName)"

text \<open>
  The callback of Object.keys(keyDictionary).some in _combinationMatchesKeys, which stops
  at the first key that is not triggering the event; the second component is
  keyCompletesCombination, which the callback assigns. A name that is the empty string
  is falsy.
\<close>

fun someKeyNotTriggering ::
  "Collaborators \<Rightarrow> string \<Rightarrow> KeyCombinationRecord \<Rightarrow> KeyEventBitmapIndex \<Rightarrow>
   string list \<Rightarrow> bool \<Rightarrow> bool \<times> bool" where
  "someKeyNotTriggering C keyBeingPressed keyboardState bitmapIndex [] completes = (False, completes)"
| "someKeyNotTriggering C keyBeingPressed keyboardState bitmapIndex (candidateKeyName # rest) completes =
    (case keyNameAsItAppearsInKeyboardState C keyboardState candidateKeyName of
       None \<Rightarrow> (True, completes)
     | Some keyInKeyboardState \<Rightarrow>
        if keyInKeyboardState = [] then (True, completes)
        else (case keys keyboardState keyInKeyboardState of
                None \<Rightarrow> (True, completes)
              | Some keyState \<Rightarrow>
                 if getBit (current keyState) bitmapIndex
                 then someKeyNotTriggering C keyBeingPressed keyboardState bitmapIndex rest
                        (if keyBeingPressed \<noteq> [] \<and> keyInKeyboardState = keyBeingPressed
                         then \<not> getBit (previous keyState) bitmapIndex
                         else completes)
                 else (True, completes)))"

definition combinationMatchesKeys ::
  "Collaborators \<Rightarrow> string \<Rightarrow> KeyCombinationRecord \<Rightarrow> CombinationEntry \<Rightarrow> KeyEventBitmapIndex \<Rightarrow> bool" where
  "combinationMatchesKeys C keyBeingPressed keyboardState combinationMatch bitmapIndex =
    (case events combinationMatch bitmapIndex of
       None \<Rightarrow> False
     | Some b \<Rightarrow>
        (let scanned = someKeyNotTriggering C keyBeingPressed keyboardState bitmapIndex
                         (keyDictionary combinationMatch) False
         in \<not> fst scanned \<and> snd scanned))"

text \<open>
  The order of the combinations of a sequence group: the ids of Object.values of the
  combinations are partitioned by size (memo[size].push(id)), and the partitions are
  concatenated by size descending.
\<close>

definition partitionBySize :: "CombinationEntry list \<Rightarrow> (nat \<times> string list) list" where
  "partitionBySize cs =
    fold (\<lambda>c memo.
            case map_of memo (combinationSize c) of
              None \<Rightarrow> memo @ [(combinationSize c, [combinationId c])]
            | Some members \<Rightarrow>
                map (\<lambda>(k, v). if k = combinationSize c then (k, v @ [combinationId c]) else (k, v)) memo)
         cs []"

definition orderCombinations :: "(string \<times> CombinationEntry) list \<Rightarrow> string list" where
  "orderCombinations combos =
    (let combinationsPartitionedBySize = partitionBySize (map snd combos)
     in concat (map (\<lambda>k. case map_of combinationsPartitionedBySize k of None \<Rightarrow> [] | Some v \<Rightarrow> v)
                    (rev (sort (map fst combinationsPartitionedBySize)))))"

text \<open>
  The inner while loop over combinationOrder: the binding of the first combination that
  matches the keys. Reading the events of a combination that does not exist throws.
\<close>

fun firstMatchingCombination ::
  "Collaborators \<Rightarrow> string \<Rightarrow> KeyCombinationRecord \<Rightarrow> KeyEventBitmapIndex \<Rightarrow>
   (string \<times> CombinationEntry) list \<Rightarrow> string list \<Rightarrow> error + EventBinding option" where
  "firstMatchingCombination C keyName currentKeyState bitmapIndex combos [] = Inr None"
| "firstMatchingCombination C keyName currentKeyState bitmapIndex combos (cid # rest) =
    (case map_of combos cid of
       None \<Rightarrow> Inl TypeError
     | Some combinationMatcher \<Rightarrow>
        if combinationMatchesKeys C keyName currentKeyState combinationMatcher bitmapIndex
        then Inr (events combinationMatcher bitmapIndex)
        else firstMatchingCombination C keyName currentKeyState bitmapIndex combos rest)"

text \<open>
  The outer while loop, sequenceLengthCounter counting down to 0. The result is the
  handler to call (None: no combination matched) and the sequences with the orders that
  were computed on the way and stored in their groups.
\<close>

fun matchSequences ::
  "Collaborators \<Rightarrow> string \<Rightarrow> KeyEventBitmapIndex \<Rightarrow> KeyCombinationRecord list \<Rightarrow> nat \<Rightarrow>
   (string \<times> SequenceGroup) list \<Rightarrow> (error + Handler option) \<times> (string \<times> SequenceGroup) list" where
  "matchSequences C keyName bitmapIndex h sequenceLengthCounter seqs =
    (case tryMatchSequenceWithKeyAliases seqs (map ids (sliceBeforeLast sequenceLengthCounter h)) of
       None \<Rightarrow>
        (case sequenceLengthCounter of
           0 \<Rightarrow> (Inr None, seqs)
         | Suc n \<Rightarrow> matchSequences C keyName bitmapIndex h n seqs)
     | Some (candidateId, matchingSequence) \<Rightarrow>
        (let ord = (case combinationOrder matchingSequence of
                      None \<Rightarrow> orderCombinations (combinations matchingSequence)
                    | Some ord' \<Rightarrow> ord');
             seqs' = putProperty candidateId (matchingSequence\<lparr>combinationOrder := Some ord\<rparr>) seqs
         in case firstMatchingCombination C keyName (currentOf h) bitmapIndex
                   (combinations matchingSequence) ord of
              Inl e \<Rightarrow> (Inl e, seqs')
            | Inr (Some b) \<Rightarrow>
               (case boundHandler b of
                  None \<Rightarrow> (Inl TypeError, seqs')
                | Some f \<Rightarrow> (Inr (Some f), seqs'))
            | Inr None \<Rightarrow>
               (case sequenceLengthCounter of
                  0 \<Rightarrow> (Inr None, seqs')
                | Suc n \<Rightarrow> matchSequences C keyName bitmapIndex h n seqs')))"

text \<open>
  _callMatchingHandlerClosestToEventTarget, in its three parts. A TypeError stands where
  the source reads a property of undefined or calls an undefined handler; the state at a
  throw is the state reached so far.

  First part (lines 493-679): the lists are created if missing, and if the component
  handling the event has unmatched handlers the search walks up the component list.
\<close>

definition resolveHandlers ::
  "ComponentOptions list \<Rightarrow> nat \<Rightarrow> HandlerResolutionState \<Rightarrow> error option \<times> HandlerResolutionState" where
  "resolveHandlers cl cid r =
    (let r0 = initHandlerResolution cl r
     in case (case unmatchedHandlerStatus r0 of None \<Rightarrow> None | Some status \<Rightarrow> nthOpt status cid) of
          None \<Rightarrow> (Some TypeError, r0)
        | Some unmatchedHandlersStatus \<Rightarrow>
           if fst unmatchedHandlersStatus > 0
           then resolveLoop cl (r0\<lparr>searchIndex := (if searchIndex r0 < cid then cid else searchIndex r0)\<rparr>)
           else (None, r0))"

text \<open>
  Second part (lines 688-754), for the key map of the component: the handler to call, if
  a combination matches. isEmpty (utils/collection/isEmpty, not under src/) holds of
  undefined and of an object with no key. A key map without longestSequence skips the
  loop (undefined >= 0 is false).
\<close>

definition findMatchingHandler ::
  "Collaborators \<Rightarrow> string \<Rightarrow> KeyEventBitmapIndex \<Rightarrow> KeyCombinationRecord list \<Rightarrow> KeyMap \<Rightarrow>
   (error + Handler option) \<times> KeyMap" where
  "findMatchingHandler C keyName bitmapIndex h keyMap =
    (case sequences keyMap of
       None \<Rightarrow> (Inr None, keyMap)
     | Some seqs \<Rightarrow>
        if seqs = [] then (Inr None, keyMap)
        else
         (case eventBitmap keyMap of
            None \<Rightarrow> (Inl TypeError, keyMap)
          | Some bitmap \<Rightarrow>
             if \<not> getBit bitmap bitmapIndex then (Inr None, keyMap)
             else
              (case keyMapLongestSequence keyMap of
                 None \<Rightarrow> (Inr None, keyMap)
               | Some longest \<Rightarrow>
                  (let matched = matchSequences C keyName bitmapIndex h longest seqs
                   in (fst matched, keyMap\<lparr>sequences := Some (snd matched)\<rparr>)))))"

text \<open>The whole: true (a handler was called, recorded in effects) or undefined (False).\<close>

definition callMatchingHandlerClosestToEventTarget ::
  "Collaborators \<Rightarrow> KeyboardEvent \<Rightarrow> string \<Rightarrow> KeyEventBitmapIndex \<Rightarrow> nat \<Rightarrow> Strategy \<Rightarrow>
   (error + bool) \<times> Strategy" where
  "callMatchingHandlerClosestToEventTarget C event keyName bitmapIndex cid s =
    (case resolveHandlers (componentList s) cid (resolution s) of
       (Some e, r1) \<Rightarrow> (Inl e, s\<lparr>resolution := r1\<rparr>)
     | (None, r1) \<Rightarrow>
        (case keyMaps r1 of
           None \<Rightarrow> (Inl TypeError, s\<lparr>resolution := r1\<rparr>)
         | Some kms \<Rightarrow>
            (case nthOpt kms cid of
               None \<Rightarrow> (Inr False, s\<lparr>resolution := r1\<rparr>)
             | Some keyMap \<Rightarrow>
                (let found = findMatchingHandler C keyName bitmapIndex (keyCombinationHistory s) keyMap;
                     s' = s\<lparr>resolution := r1\<lparr>keyMaps := Some (kms[cid := snd found])\<rparr>\<rparr>
                 in case fst found of
                      Inl e \<Rightarrow> (Inl e, s')
                    | Inr None \<Rightarrow> (Inr False, s')
                    | Inr (Some f) \<Rightarrow> (Inr True, s'\<lparr>effects := effects s' @ [HandlerCalled f event]\<rparr>)))))"

section \<open>The propagation of one key event\<close>

definition clearEventPropagationState :: "Strategy \<Rightarrow> Strategy" where
  "clearEventPropagationState s =
    s\<lparr>eventPropagationState :=
        \<lparr>previousComponentIndex = 0, actionHandled = False, ignoreEvent = False\<rparr>\<rparr>"

definition isFocusTreeRoot :: "nat \<Rightarrow> Strategy \<Rightarrow> bool" where
  "isFocusTreeRoot cid s = (int cid \<ge> int (length (componentList s)) - 1)"

definition alreadyEstablishedShouldIgnoreEvent :: "Strategy \<Rightarrow> bool" where
  "alreadyEstablishedShouldIgnoreEvent s = ignoreEvent (eventPropagationState s)"

definition isNewKeyEvent :: "nat \<Rightarrow> Strategy \<Rightarrow> bool" where
  "isNewKeyEvent cid s = (previousComponentIndex (eventPropagationState s) \<ge> cid)"

definition updateEventPropagationHistory :: "nat \<Rightarrow> Strategy \<Rightarrow> Strategy" where
  "updateEventPropagationHistory cid s =
    (if isFocusTreeRoot cid s then clearEventPropagationState s
     else s\<lparr>eventPropagationState := (eventPropagationState s)\<lparr>previousComponentIndex := cid\<rparr>\<rparr>)"

text \<open>The evaluation of the caller's ignoreEventsCondition is recorded in effects.\<close>

definition setIgnoreEventFlag :: "KeyboardEvent \<Rightarrow> HandlerOptions \<Rightarrow> Strategy \<Rightarrow> Strategy" where
  "setIgnoreEventFlag event opts s =
    s\<lparr>eventPropagationState :=
         (eventPropagationState s)\<lparr>ignoreEvent := ignoreEventsCondition opts event\<rparr>,
      effects := effects s @ [IgnoreConditionEvaluated event]\<rparr>"

definition setNewEventParameters :: "KeyboardEvent \<Rightarrow> KeyEventBitmapIndex \<Rightarrow> Strategy \<Rightarrow> Strategy" where
  "setNewEventParameters event type s =
    s\<lparr>keyEventCounter := keyEventCounter s + 1,
      currentEvent := \<lparr>currentKey = Some (key event), currentType = Some type, handled = False\<rparr>\<rparr>"

definition callHandlerIfActionNotHandled ::
  "Collaborators \<Rightarrow> KeyboardEvent \<Rightarrow> string \<Rightarrow> KeyEventBitmapIndex \<Rightarrow> nat \<Rightarrow> Strategy \<Rightarrow>
   error option \<times> Strategy" where
  "callHandlerIfActionNotHandled C event keyName bitmapIndex cid s =
    (if getBit (keyMapEventBitmap s) bitmapIndex
     then (if actionHandled (eventPropagationState s) then (None, s)
           else (case callMatchingHandlerClosestToEventTarget C event keyName bitmapIndex cid s of
                   (Inl e, s') \<Rightarrow> (Some e, s')
                 | (Inr handlerWasCalled, s') \<Rightarrow>
                     (None,
                      if handlerWasCalled
                      then s'\<lparr>eventPropagationState := (eventPropagationState s')\<lparr>actionHandled := True\<rparr>,
                             currentEvent := (currentEvent s')\<lparr>handled := True\<rparr>\<rparr>
                      else s')))
     else (None, s))"

text \<open>
  What each handler does with the key combination history at the first sighting of an
  event that is not ignored (handleKeydown lines 281-296, handleKeypress 399-410,
  handleKeyup 482-496). handleKeydown tests only whether what it reads in the key
  dictionary at the key of the event is truthy, which an inherited property is as well.
  handleKeypress and handleKeyup read the bitsets of what they find there, which for the
  name of an inherited property would throw: they are modelled for the names of keys.
\<close>

definition recordKeydown :: "Collaborators \<Rightarrow> string \<Rightarrow> Strategy \<Rightarrow> Strategy" where
  "recordKeydown C k s =
    (let keyInCurrentCombination =
           (keys (getCurrentKeyCombination s) k \<noteq> None \<or> k \<in> set objectPrototypeNames)
     in if keyInCurrentCombination \<or> keyCombinationIncludesKeyUp s
        then startNewKeyCombination C k keydown s
        else addToCurrentKeyCombination C k keydown s)"

definition recordKeypress :: "Collaborators \<Rightarrow> string \<Rightarrow> Strategy \<Rightarrow> Strategy" where
  "recordKeypress C k s =
    (let alreadySeenKeyInCurrentCombo =
           (case keys (getCurrentKeyCombination s) k of
              None \<Rightarrow> False
            | Some keyCombination \<Rightarrow>
                getBit (current keyCombination) keypress \<or> getBit (current keyCombination) keyup)
     in if alreadySeenKeyInCurrentCombo
        then startNewKeyCombination C k keypress s
        else addToCurrentKeyCombination C k keypress s)"

definition recordKeyup :: "Collaborators \<Rightarrow> string \<Rightarrow> Strategy \<Rightarrow> Strategy" where
  "recordKeyup C k s =
    (let alreadySeenKeyEventInCombo =
           (case keys (getCurrentKeyCombination s) k of
              None \<Rightarrow> False
            | Some keyCombination \<Rightarrow> getBit (current keyCombination) keyup)
     in if alreadySeenKeyEventInCombo
        then startNewKeyCombination C k keyup s
        else (addToCurrentKeyCombination C k keyup s)\<lparr>keyCombinationIncludesKeyUp := True\<rparr>)"

text \<open>
  The block that the three handlers share word for word, up to the kind of the event
  and the way it is recorded (handleKeydown lines 256-296, handleKeypress 370-411,
  handleKeyup 457-497): if _isNewKeyEvent holds, the event is counted, the caller's
  condition is evaluated, and the event is either ignored (Inl: the handler returns
  after updating the propagation history) or recorded (Inr); otherwise nothing happens.
\<close>

definition noteNewKeyEvent ::
  "(Strategy \<Rightarrow> Strategy) \<Rightarrow> KeyboardEvent \<Rightarrow> KeyEventBitmapIndex \<Rightarrow> nat \<Rightarrow> HandlerOptions \<Rightarrow>
   Strategy \<Rightarrow> Strategy + Strategy" where
  "noteNewKeyEvent recordEvent event type cid opts s =
    (if isNewKeyEvent cid s
     then (let s1 = setIgnoreEventFlag event opts (setNewEventParameters event type s)
           in if alreadyEstablishedShouldIgnoreEvent s1
              then Inl (updateEventPropagationHistory cid s1)
              else Inr (recordEvent s1))
     else Inr s)"

text \<open>
  The three handlers return true (the event was discarded), false, or undefined (None).
\<close>

definition handleKeypress ::
  "Collaborators \<Rightarrow> KeyboardEvent \<Rightarrow> nat \<Rightarrow> nat \<Rightarrow> HandlerOptions \<Rightarrow> Strategy \<Rightarrow>
   (error + bool option) \<times> Strategy" where
  "handleKeypress C event ftid cid opts s =
    (let k = normalizeKeyName C (key event)
     in if ftid \<noteq> focusTreeId s then (Inr (Some True), s)
        else if alreadyEstablishedShouldIgnoreEvent s
        then (Inr None, updateEventPropagationHistory cid s)
        else
          (case noteNewKeyEvent (recordKeypress C k) event keypress cid opts s of
             Inl s' \<Rightarrow> (Inr None, s')
           | Inr s2 \<Rightarrow>
              (case callHandlerIfActionNotHandled C event k keypress cid s2 of
                 (Some e, s3) \<Rightarrow> (Inl e, s3)
               | (None, s3) \<Rightarrow> (Inr None, updateEventPropagationHistory cid s3))))"

definition handleKeyup ::
  "Collaborators \<Rightarrow> KeyboardEvent \<Rightarrow> nat \<Rightarrow> nat \<Rightarrow> HandlerOptions \<Rightarrow> Strategy \<Rightarrow>
   (error + bool option) \<times> Strategy" where
  "handleKeyup C event ftid cid opts s =
    (let k = normalizeKeyName C (key event)
     in if ftid \<noteq> focusTreeId s then (Inr (Some True), s)
        else if alreadyEstablishedShouldIgnoreEvent s
        then (Inr None, updateEventPropagationHistory cid s)
        else
          (case noteNewKeyEvent (recordKeyup C k) event keyup cid opts s of
             Inl s' \<Rightarrow> (Inr None, s')
           | Inr s2 \<Rightarrow>
              (case callHandlerIfActionNotHandled C event k keyup cid s2 of
                 (Some e, s3) \<Rightarrow> (Inl e, s3)
               | (None, s3) \<Rightarrow> (Inr None, updateEventPropagationHistory cid s3))))"

text \<open>
  keypressEventsToSimulate.forEach: handleKeypress for each queued keydown, in order; a
  throw ends the loop.
\<close>

fun simulateKeypresses :: "Collaborators \<Rightarrow> SimulatedKeypress list \<Rightarrow> Strategy \<Rightarrow> error option \<times> Strategy" where
  "simulateKeypresses C [] s = (None, s)"
| "simulateKeypresses C (queued # rest) s =
    (case handleKeypress C (fst queued) (fst (snd queued)) (fst (snd (snd queued)))
            (snd (snd (snd queued))) s of
       (Inl e, s') \<Rightarrow> (Some e, s')
     | (Inr v, s') \<Rightarrow> simulateKeypresses C rest s')"

definition handleKeydown ::
  "Collaborators \<Rightarrow> KeyboardEvent \<Rightarrow> nat \<Rightarrow> nat \<Rightarrow> HandlerOptions \<Rightarrow> Strategy \<Rightarrow>
   (error + bool option) \<times> Strategy" where
  "handleKeydown C event ftid cid opts s =
    (let k = normalizeKeyName C (key event)
     in if ftid \<noteq> focusTreeId s then (Inr (Some True), s)
        else if alreadyEstablishedShouldIgnoreEvent s
        then (Inr (Some False), updateEventPropagationHistory cid s)
        else
          (case noteNewKeyEvent (recordKeydown C k) event keydown cid opts s of
             Inl s' \<Rightarrow> (Inr (Some False), s')
           | Inr s2 \<Rightarrow>
              (case callHandlerIfActionNotHandled C event k keydown cid s2 of
                 (Some e, s3) \<Rightarrow> (Inl e, s3)
               | (None, s3) \<Rightarrow>
                  (let s4 = (if \<not> hasKeyPressEvent C k \<and> simulateMissingKeyPressEvents C
                             then s3\<lparr>keypressEventsToSimulate :=
                                      keypressEventsToSimulate s3 @ [(event, ftid, cid, opts)]\<rparr>
                             else s3)
                   in if isFocusTreeRoot cid s4
                      then (case simulateKeypresses C (keypressEventsToSimulate s4) s4 of
                              (Some e, s5) \<Rightarrow> (Inl e, s5)
                            | (None, s5) \<Rightarrow>
                                (Inr (Some False),
                                 updateEventPropagationHistory cid (s5\<lparr>keypressEventsToSimulate := []\<rparr>)))
                      else (Inr (Some False), updateEventPropagationHistory cid s4)))))"

section \<open>Example strategies\<close>

text \<open>
  Collaborators for the examples: key names are taken as they are, the modifier keys have
  no keypress event of their own, missing keypress events are simulated (the default of
  the configuration), a key has no alias but itself, and a combination is serialised as
  the names of its keys among Shift, a, b, 1 and 2, joined by +.
\<close>

fun joinPlus :: "string list \<Rightarrow> string" where
  "joinPlus [] = []"
| "joinPlus [w] = w"
| "joinPlus (w # ws) = w @ ''+'' @ joinPlus ws"

definition exampleCollaborators :: Collaborators where
  "exampleCollaborators =
    \<lparr>normalizeKeyName = (\<lambda>k. k),
     hasKeyPressEvent = (\<lambda>k. k \<noteq> ''Shift'' \<and> k \<noteq> ''Alt'' \<and> k \<noteq> ''Control'' \<and> k \<noteq> ''Meta''),
     simulateMissingKeyPressEvents = True,
     serialize = (\<lambda>m. [joinPlus (filter (\<lambda>n. m n \<noteq> None) [''Shift'', ''a'', ''b'', ''1'', ''2''])]),
     resolveKeyAlias = (\<lambda>k. [k]),
     resolveShiftedAlias = (\<lambda>k. [k]),
     resolveAltedAlias = (\<lambda>k. [k]),
     resolveAltShiftedAlias = (\<lambda>k. [k])\<rparr>"

definition neverIgnore :: HandlerOptions where
  "neverIgnore = \<lparr>ignoreEventsCondition = (\<lambda>event. False)\<rparr>"

definition keyEvent :: "string \<Rightarrow> KeyboardEvent" where
  "keyEvent k = \<lparr>key = k\<rparr>"

text \<open>
  The matcher that the sequence parser gives for a single key pressed alone, bound to
  an event kind and an action.
\<close>

definition singleKeyMatcher :: "string \<Rightarrow> KeyEventBitmapIndex \<Rightarrow> string \<Rightarrow> ActionConfiguration" where
  "singleKeyMatcher k bitmapIndex name =
    \<lparr>prefix = [], sequenceLength = 1, combinationId = k, keyDictionary = [k],
     combinationSize = 1, actionName = name, eventBitmapIndex = bitmapIndex\<rparr>"

definition freshResolution :: HandlerResolutionState where
  "freshResolution =
    \<lparr>keyMaps = None, searchIndex = 0, unmatchedHandlerStatus = None,
     handlersDictionary = Map.empty, keySequencesDictionary = Map.empty\<rparr>"

text \<open>
  A strategy as addHotKeys leaves it after the given components have been focused, the
  innermost first, in focus tree 1, with a key map bound to the given kinds of event and
  no key event seen yet.
\<close>

definition focusedStrategy :: "ComponentOptions list \<Rightarrow> KeyEventBitmap \<Rightarrow> Strategy" where
  "focusedStrategy cl bitmap =
    \<lparr>focusTreeId = 1, nextComponentId = length cl - 1, resetOnNextFocus = False,
     componentList = cl, longestSequence = 1, longestSequenceComponentIndex = None,
     keyMapEventBitmap = bitmap, resolution = freshResolution,
     keyCombinationIncludesKeyUp = False, keypressEventsToSimulate = [],
     keyCombinationHistory = [],
     eventPropagationState = \<lparr>previousComponentIndex = 0, actionHandled = False, ignoreEvent = False\<rparr>,
     currentEvent = \<lparr>currentKey = None, currentType = None, handled = False\<rparr>,
     keyEventCounter = 0, effects = []\<rparr>"

text \<open>
  One component that binds the action SAVE to keydown of a and handles it; and the same
  component inside an outer one that binds and handles the same action.
\<close>

definition saveComponent :: "nat \<Rightarrow> nat \<Rightarrow> ComponentOptions" where
  "saveComponent i h =
    \<lparr>actions = [(''SAVE'', [singleKeyMatcher ''a'' keydown ''SAVE''])],
     handlers = [(''SAVE'', Handler h)], componentId = i\<rparr>"

definition oneScope :: Strategy where
  "oneScope = focusedStrategy [saveComponent 0 0] (Bitmap True False False)"

definition twoScopes :: Strategy where
  "twoScopes = focusedStrategy [saveComponent 0 0, saveComponent 1 1] (Bitmap True False False)"

section \<open>Events of a stale focus tree\<close>

text \<open>
  C9. A keydown, keypress or keyup event that carries a focus tree id different from the
  strategy's current one makes the handler return true (discarded) and leaves the whole
  state as it was: the key combination history, the propagation state, the resolution
  caches, the component list and every other field, and nothing is called.
\<close>

theorem stale_focus_tree_discarded:
  assumes "ftid \<noteq> focusTreeId s"
  shows "handleKeydown C event ftid cid opts s = (Inr (Some True), s)
       \<and> handleKeypress C event ftid cid opts s = (Inr (Some True), s)
       \<and> handleKeyup C event ftid cid opts s = (Inr (Some True), s)"
  using assms by (simp add: handleKeydown_def handleKeypress_def handleKeyup_def)

theorem stale_focus_tree_discarded_witness:
  "(7::nat) \<noteq> focusTreeId twoScopes
   \<and> handleKeydown exampleCollaborators (keyEvent ''a'') 7 0 neverIgnore twoScopes = (Inr (Some True), twoScopes)
   \<and> handleKeypress exampleCollaborators (keyEvent ''a'') 7 0 neverIgnore twoScopes = (Inr (Some True), twoScopes)
   \<and> handleKeyup exampleCollaborators (keyEvent ''a'') 7 0 neverIgnore twoScopes = (Inr (Some True), twoScopes)"
proof -
  have stale: "(7::nat) \<noteq> focusTreeId twoScopes"
    by (simp add: twoScopes_def focusedStrategy_def)
  show ?thesis
    using stale stale_focus_tree_discarded [OF stale, of exampleCollaborators "keyEvent ''a''" 0 neverIgnore]
    by simp
qed

section \<open>What one call changes\<close>


lemma callMatching_cases:
  obtains (threw) e r' where
      "callMatchingHandlerClosestToEventTarget C event keyName bitmapIndex cid s
           = (Inl e, s\<lparr>resolution := r'\<rparr>)"
  | (unmatched) r' where
      "callMatchingHandlerClosestToEventTarget C event keyName bitmapIndex cid s
           = (Inr False, s\<lparr>resolution := r'\<rparr>)"
  | (called) r' f where
      "callMatchingHandlerClosestToEventTarget C event keyName bitmapIndex cid s
           = (Inr True, s\<lparr>resolution := r', effects := effects s @ [HandlerCalled f event]\<rparr>)"
proof -
  obtain e r1 where R: "resolveHandlers (componentList s) cid (resolution s) = (e, r1)"
    by (cases "resolveHandlers (componentList s) cid (resolution s)") auto
  show thesis
  proof (cases e)
    case (Some err)
    then show thesis using R threw
      by (simp add: callMatchingHandlerClosestToEventTarget_def)
  next
    case None
    note e = None
    show thesis
    proof (cases "keyMaps r1")
      case None
      then show thesis using R e threw
        by (simp add: callMatchingHandlerClosestToEventTarget_def)
    next
      case (Some kms)
      note kms = Some
      show thesis
      proof (cases "nthOpt kms cid")
        case None
        then show thesis using R e kms unmatched
          by (simp add: callMatchingHandlerClosestToEventTarget_def)
      next
        case (Some keyMap)
        obtain res km' where F: "findMatchingHandler C keyName bitmapIndex (keyCombinationHistory s) keyMap = (res, km')"
          by (cases "findMatchingHandler C keyName bitmapIndex (keyCombinationHistory s) keyMap") auto
        show thesis
        proof (cases res)
          case (Inl err)
          then show thesis using R e kms Some F threw
            by (simp add: callMatchingHandlerClosestToEventTarget_def)
        next
          case (Inr found)
          then show thesis using R e kms Some F unmatched called
            by (cases found) (simp_all add: callMatchingHandlerClosestToEventTarget_def)
        qed
      qed
    qed
  qed
qed

lemma callHandler_cases:
  obtains (skipped) "callHandlerIfActionNotHandled C event keyName bitmapIndex cid s = (None, s)"
  | (threw) e r' where "\<not> actionHandled (eventPropagationState s)"
      "callHandlerIfActionNotHandled C event keyName bitmapIndex cid s = (Some e, s\<lparr>resolution := r'\<rparr>)"
  | (unmatched) r' where "\<not> actionHandled (eventPropagationState s)"
      "callHandlerIfActionNotHandled C event keyName bitmapIndex cid s = (None, s\<lparr>resolution := r'\<rparr>)"
  | (called) r' f where "\<not> actionHandled (eventPropagationState s)"
      "callHandlerIfActionNotHandled C event keyName bitmapIndex cid s
           = (None, s\<lparr>resolution := r', effects := effects s @ [HandlerCalled f event],
                   eventPropagationState := (eventPropagationState s)\<lparr>actionHandled := True\<rparr>,
                   currentEvent := (currentEvent s)\<lparr>handled := True\<rparr>\<rparr>)"
proof (cases "getBit (keyMapEventBitmap s) bitmapIndex \<and> \<not> actionHandled (eventPropagationState s)")
  case False
  then have "callHandlerIfActionNotHandled C event keyName bitmapIndex cid s = (None, s)"
    by (auto simp: callHandlerIfActionNotHandled_def)
  then show ?thesis by (rule skipped)
next
  case True
  show ?thesis
  proof (cases rule: callMatching_cases [of C event keyName bitmapIndex cid s])
    case (threw e r')
    then show ?thesis using True that(2) by (simp add: callHandlerIfActionNotHandled_def)
  next
    case (unmatched r')
    then show ?thesis using True that(3) by (simp add: callHandlerIfActionNotHandled_def)
  next
    case (called r' f)
    then show ?thesis using True that(4) by (simp add: callHandlerIfActionNotHandled_def)
  qed
qed


text \<open>The fields that callHandlerIfActionNotHandled leaves alone.\<close>

definition registration :: "Strategy \<Rightarrow> nat \<times> ComponentOptions list \<times> nat \<times> KeyEventBitmap" where
  "registration s = (focusTreeId s, componentList s, longestSequence s, keyMapEventBitmap s)"

lemma callHandler_keeps:
  assumes "callHandlerIfActionNotHandled C event keyName bitmapIndex cid s = (e, s')"
  shows "keyCombinationHistory s' = keyCombinationHistory s
       \<and> keyCombinationIncludesKeyUp s' = keyCombinationIncludesKeyUp s
       \<and> registration s' = registration s
       \<and> keypressEventsToSimulate s' = keypressEventsToSimulate s
       \<and> previousComponentIndex (eventPropagationState s') = previousComponentIndex (eventPropagationState s)
       \<and> ignoreEvent (eventPropagationState s') = ignoreEvent (eventPropagationState s)"
  using assms
  by (cases rule: callHandler_cases [of C event keyName bitmapIndex cid s])
     (auto simp: registration_def)

definition historyBounded :: "Strategy \<Rightarrow> bool" where
  "historyBounded s = (length (keyCombinationHistory s) \<le> longestSequence s + 1)"

lemma bounded_start: "historyBounded s \<Longrightarrow> historyBounded (startNewKeyCombination C k i s)"
  by (auto simp: historyBounded_def startNewKeyCombination_def Let_def)

lemma bounded_add: "historyBounded s \<Longrightarrow> historyBounded (addToCurrentKeyCombination C k i s)"
  by (auto simp: historyBounded_def addToCurrentKeyCombination_def Let_def)

lemma bounded_record:
  assumes "historyBounded s"
  shows "historyBounded (recordKeydown C k s) \<and> historyBounded (recordKeypress C k s)
       \<and> historyBounded (recordKeyup C k s)"
proof -
  have "historyBounded ((addToCurrentKeyCombination C k keyup s)\<lparr>keyCombinationIncludesKeyUp := True\<rparr>)"
    using bounded_add [OF assms, of C k keyup] by (simp add: historyBounded_def)
  then show ?thesis
    using assms by (simp add: recordKeydown_def recordKeypress_def recordKeyup_def Let_def
        bounded_start bounded_add)
qed

text \<open>
  The shape of a call of handleKeypress or handleKeyup, for any relation R between states
  that is reflexive and transitive and that the steps of the call satisfy: the state
  returned is a state pre that R relates to the first, or pre after
  updateEventPropagationHistory.
\<close>

lemma noteNewKeyEvent_shape:
  assumes refl: "\<And>a. R a a"
    and seen: "\<And>a. R a (setIgnoreEventFlag event opts (setNewEventParameters event type a))"
    and rec: "\<And>a. R a (recordEvent a)"
    and trans: "\<And>a b c. R a b \<Longrightarrow> R b c \<Longrightarrow> R a c"
  shows "case noteNewKeyEvent recordEvent event type cid opts s of
           Inl x \<Rightarrow> \<exists>pre. R s pre \<and> x = updateEventPropagationHistory cid pre
         | Inr x \<Rightarrow> R s x"
proof (cases "isNewKeyEvent cid s")
  case False
  then show ?thesis by (simp add: noteNewKeyEvent_def refl)
next
  case True
  let ?s1 = "setIgnoreEventFlag event opts (setNewEventParameters event type s)"
  show ?thesis
  proof (cases "alreadyEstablishedShouldIgnoreEvent ?s1")
    case True
    then show ?thesis using \<open>isNewKeyEvent cid s\<close> seen [of s]
      by (auto simp: noteNewKeyEvent_def Let_def)
  next
    case False
    have "R s (recordEvent ?s1)" using seen [of s] rec [of ?s1] trans by blast
    then show ?thesis using \<open>isNewKeyEvent cid s\<close> False
      by (simp add: noteNewKeyEvent_def Let_def)
  qed
qed

lemma handleKeypress_shape:
  assumes refl: "\<And>a. R a a"
    and seen: "\<And>a. R a (setIgnoreEventFlag event opts (setNewEventParameters event keypress a))"
    and rec: "\<And>a. R a (recordKeypress C (normalizeKeyName C (key event)) a)"
    and call: "\<And>a e b. callHandlerIfActionNotHandled C event (normalizeKeyName C (key event)) keypress cid a = (e, b) \<Longrightarrow> R a b"
    and trans: "\<And>a b c. R a b \<Longrightarrow> R b c \<Longrightarrow> R a c"
  shows "\<exists>pre. R s pre \<and> (snd (handleKeypress C event ftid cid opts s) = pre
                        \<or> snd (handleKeypress C event ftid cid opts s) = updateEventPropagationHistory cid pre)"
proof -
  let ?k = "normalizeKeyName C (key event)"
  let ?n = "noteNewKeyEvent (recordKeypress C ?k) event keypress cid opts s"
  have N: "case ?n of Inl x \<Rightarrow> \<exists>pre. R s pre \<and> x = updateEventPropagationHistory cid pre | Inr x \<Rightarrow> R s x"
    by (rule noteNewKeyEvent_shape [OF refl seen rec trans])
  show ?thesis
  proof (cases "ftid \<noteq> focusTreeId s \<or> alreadyEstablishedShouldIgnoreEvent s")
    case True
    then have "snd (handleKeypress C event ftid cid opts s) = s
        \<or> snd (handleKeypress C event ftid cid opts s) = updateEventPropagationHistory cid s"
      by (auto simp: handleKeypress_def Let_def)
    then show ?thesis using refl [of s] by blast
  next
    case False
    show ?thesis
    proof (cases ?n)
      case (Inl x)
      then have "snd (handleKeypress C event ftid cid opts s) = x"
        using False by (simp add: handleKeypress_def Let_def)
      then show ?thesis using N Inl by auto
    next
      case (Inr s2)
      obtain e s3 where H: "callHandlerIfActionNotHandled C event ?k keypress cid s2 = (e, s3)"
        by (cases "callHandlerIfActionNotHandled C event ?k keypress cid s2") auto
      have R3: "R s s3" using N Inr call [OF H] trans by auto
      have "snd (handleKeypress C event ftid cid opts s) = s3
          \<or> snd (handleKeypress C event ftid cid opts s) = updateEventPropagationHistory cid s3"
        using False Inr H by (cases e) (simp_all add: handleKeypress_def Let_def)
      then show ?thesis using R3 by blast
    qed
  qed
qed

lemma handleKeyup_shape:
  assumes refl: "\<And>a. R a a"
    and seen: "\<And>a. R a (setIgnoreEventFlag event opts (setNewEventParameters event keyup a))"
    and rec: "\<And>a. R a (recordKeyup C (normalizeKeyName C (key event)) a)"
    and call: "\<And>a e b. callHandlerIfActionNotHandled C event (normalizeKeyName C (key event)) keyup cid a = (e, b) \<Longrightarrow> R a b"
    and trans: "\<And>a b c. R a b \<Longrightarrow> R b c \<Longrightarrow> R a c"
  shows "\<exists>pre. R s pre \<and> (snd (handleKeyup C event ftid cid opts s) = pre
                        \<or> snd (handleKeyup C event ftid cid opts s) = updateEventPropagationHistory cid pre)"
proof -
  let ?k = "normalizeKeyName C (key event)"
  let ?n = "noteNewKeyEvent (recordKeyup C ?k) event keyup cid opts s"
  have N: "case ?n of Inl x \<Rightarrow> \<exists>pre. R s pre \<and> x = updateEventPropagationHistory cid pre | Inr x \<Rightarrow> R s x"
    by (rule noteNewKeyEvent_shape [OF refl seen rec trans])
  show ?thesis
  proof (cases "ftid \<noteq> focusTreeId s \<or> alreadyEstablishedShouldIgnoreEvent s")
    case True
    then have "snd (handleKeyup C event ftid cid opts s) = s
        \<or> snd (handleKeyup C event ftid cid opts s) = updateEventPropagationHistory cid s"
      by (auto simp: handleKeyup_def Let_def)
    then show ?thesis using refl [of s] by blast
  next
    case False
    show ?thesis
    proof (cases ?n)
      case (Inl x)
      then have "snd (handleKeyup C event ftid cid opts s) = x"
        using False by (simp add: handleKeyup_def Let_def)
      then show ?thesis using N Inl by auto
    next
      case (Inr s2)
      obtain e s3 where H: "callHandlerIfActionNotHandled C event ?k keyup cid s2 = (e, s3)"
        by (cases "callHandlerIfActionNotHandled C event ?k keyup cid s2") auto
      have R3: "R s s3" using N Inr call [OF H] trans by auto
      have "snd (handleKeyup C event ftid cid opts s) = s3
          \<or> snd (handleKeyup C event ftid cid opts s) = updateEventPropagationHistory cid s3"
        using False Inr H by (cases e) (simp_all add: handleKeyup_def Let_def)
      then show ?thesis using R3 by blast
    qed
  qed
qed

text \<open>
  The shape of a call of handleKeydown: as above, or, at the root of the focus tree, the
  queued keypress events are simulated from a state pre, and the state returned is where
  the simulation threw or, after it, the state with the queue emptied and the
  propagation history updated.
\<close>

lemma handleKeydown_shape:
  assumes refl: "\<And>a. R a a"
    and seen: "\<And>a. R a (setIgnoreEventFlag event opts (setNewEventParameters event keydown a))"
    and rec: "\<And>a. R a (recordKeydown C (normalizeKeyName C (key event)) a)"
    and call: "\<And>a e b. callHandlerIfActionNotHandled C event (normalizeKeyName C (key event)) keydown cid a = (e, b) \<Longrightarrow> R a b"
    and trans: "\<And>a b c. R a b \<Longrightarrow> R b c \<Longrightarrow> R a c"
  shows "\<exists>pre. R s pre \<and>
          (snd (handleKeydown C event ftid cid opts s) = pre
           \<or> snd (handleKeydown C event ftid cid opts s) = updateEventPropagationHistory cid pre
           \<or> (\<exists>s4. (s4 = pre \<or> s4 = pre\<lparr>keypressEventsToSimulate :=
                                         keypressEventsToSimulate pre @ [(event, ftid, cid, opts)]\<rparr>) \<and>
                 ((\<not> isFocusTreeRoot cid s4 \<and>
                     snd (handleKeydown C event ftid cid opts s) = updateEventPropagationHistory cid s4)
                  \<or> (isFocusTreeRoot cid s4 \<and>
                      (\<exists>e s5. simulateKeypresses C (keypressEventsToSimulate s4) s4 = (e, s5) \<and>
                         (snd (handleKeydown C event ftid cid opts s) = s5
                          \<or> snd (handleKeydown C event ftid cid opts s)
                              = updateEventPropagationHistory cid (s5\<lparr>keypressEventsToSimulate := []\<rparr>)))))))"
proof -
  let ?k = "normalizeKeyName C (key event)"
  let ?n = "noteNewKeyEvent (recordKeydown C ?k) event keydown cid opts s"
  have N: "case ?n of Inl x \<Rightarrow> \<exists>pre. R s pre \<and> x = updateEventPropagationHistory cid pre | Inr x \<Rightarrow> R s x"
    by (rule noteNewKeyEvent_shape [OF refl seen rec trans])
  show ?thesis
  proof (cases "ftid \<noteq> focusTreeId s \<or> alreadyEstablishedShouldIgnoreEvent s")
    case True
    then have "snd (handleKeydown C event ftid cid opts s) = s
        \<or> snd (handleKeydown C event ftid cid opts s) = updateEventPropagationHistory cid s"
      by (auto simp: handleKeydown_def Let_def)
    then show ?thesis using refl [of s] by blast
  next
    case False
    show ?thesis
    proof (cases ?n)
      case (Inl x)
      then have "snd (handleKeydown C event ftid cid opts s) = x"
        using False by (simp add: handleKeydown_def Let_def)
      then show ?thesis using N Inl by auto
    next
      case (Inr s2)
      obtain e s3 where H: "callHandlerIfActionNotHandled C event ?k keydown cid s2 = (e, s3)"
        by (cases "callHandlerIfActionNotHandled C event ?k keydown cid s2") auto
      have R3: "R s s3" using N Inr call [OF H] trans by auto
      show ?thesis
      proof (cases e)
        case (Some err)
        then have "snd (handleKeydown C event ftid cid opts s) = s3"
          using False Inr H by (simp add: handleKeydown_def Let_def)
        then show ?thesis using R3 by blast
      next
        case None
        define s4 where "s4 = (if \<not> hasKeyPressEvent C ?k \<and> simulateMissingKeyPressEvents C
                             then s3\<lparr>keypressEventsToSimulate :=
                                      keypressEventsToSimulate s3 @ [(event, ftid, cid, opts)]\<rparr>
                             else s3)"
        have s4: "s4 = s3 \<or> s4 = s3\<lparr>keypressEventsToSimulate :=
                                      keypressEventsToSimulate s3 @ [(event, ftid, cid, opts)]\<rparr>"
          by (simp add: s4_def)
        obtain e5 s5 where S: "simulateKeypresses C (keypressEventsToSimulate s4) s4 = (e5, s5)"
          by (cases "simulateKeypresses C (keypressEventsToSimulate s4) s4") auto
        have res: "snd (handleKeydown C event ftid cid opts s) =
            (if isFocusTreeRoot cid s4
             then (case e5 of Some err \<Rightarrow> s5
                   | None \<Rightarrow> updateEventPropagationHistory cid (s5\<lparr>keypressEventsToSimulate := []\<rparr>))
             else updateEventPropagationHistory cid s4)"
          using False Inr H None S
          by (auto simp: handleKeydown_def Let_def s4_def split: option.splits)
        show ?thesis
        proof (cases "isFocusTreeRoot cid s4")
          case False
          then have "snd (handleKeydown C event ftid cid opts s) = updateEventPropagationHistory cid s4"
            using res by simp
          then show ?thesis using R3 s4 False by blast
        next
          case True
          then have "snd (handleKeydown C event ftid cid opts s) = s5
              \<or> snd (handleKeydown C event ftid cid opts s)
                   = updateEventPropagationHistory cid (s5\<lparr>keypressEventsToSimulate := []\<rparr>)"
            using res by (cases e5) simp_all
          then show ?thesis using R3 s4 S True by blast
        qed
      qed
    qed
  qed
qed

text \<open>
  Counting the handlers called. The budget of a state is the number of handlers called
  so far plus the one call that is still allowed while actionHandled is false.
\<close>

fun isHandlerCall :: "Effect \<Rightarrow> bool" where
  "isHandlerCall (HandlerCalled f event) = True"
| "isHandlerCall (IgnoreConditionEvaluated event) = False"

definition handlerCalls :: "Strategy \<Rightarrow> nat" where
  "handlerCalls s = length (filter isHandlerCall (effects s))"

definition handlerBudget :: "Strategy \<Rightarrow> nat" where
  "handlerBudget s = handlerCalls s + (if actionHandled (eventPropagationState s) then 0 else 1)"

text \<open>
  What every step of a call keeps: the registered components, the bound on the history,
  the budget of handler calls, and the queue of keypress events to simulate.
\<close>

definition keepsFrame :: "Strategy \<Rightarrow> Strategy \<Rightarrow> bool" where
  "keepsFrame a b =
    (registration b = registration a
     \<and> (historyBounded a \<longrightarrow> historyBounded b)
     \<and> handlerBudget b \<le> handlerBudget a
     \<and> handlerCalls a \<le> handlerCalls b
     \<and> keypressEventsToSimulate b = keypressEventsToSimulate a
     \<and> previousComponentIndex (eventPropagationState b) = previousComponentIndex (eventPropagationState a))"

lemma keepsFrame_refl: "keepsFrame a a"
  by (auto simp: keepsFrame_def)

lemma keepsFrame_trans: "keepsFrame a b \<Longrightarrow> keepsFrame b c \<Longrightarrow> keepsFrame a c"
  by (auto simp: keepsFrame_def)

lemma keepsFrame_seen:
  "keepsFrame a (setIgnoreEventFlag event opts (setNewEventParameters event type a))"
  by (auto simp: keepsFrame_def registration_def historyBounded_def handlerBudget_def
      handlerCalls_def setIgnoreEventFlag_def setNewEventParameters_def)

lemma record_keeps:
  "registration (recordKeydown C k a) = registration a"
  "registration (recordKeypress C k a) = registration a"
  "registration (recordKeyup C k a) = registration a"
  "effects (recordKeydown C k a) = effects a"
  "effects (recordKeypress C k a) = effects a"
  "effects (recordKeyup C k a) = effects a"
  "eventPropagationState (recordKeydown C k a) = eventPropagationState a"
  "eventPropagationState (recordKeypress C k a) = eventPropagationState a"
  "eventPropagationState (recordKeyup C k a) = eventPropagationState a"
  "keypressEventsToSimulate (recordKeydown C k a) = keypressEventsToSimulate a"
  "keypressEventsToSimulate (recordKeypress C k a) = keypressEventsToSimulate a"
  "keypressEventsToSimulate (recordKeyup C k a) = keypressEventsToSimulate a"
  by (simp_all add: registration_def recordKeydown_def recordKeypress_def recordKeyup_def
      startNewKeyCombination_def addToCurrentKeyCombination_def Let_def)

lemma keepsFrame_record:
  "keepsFrame a (recordKeydown C k a)"
  "keepsFrame a (recordKeypress C k a)"
  "keepsFrame a (recordKeyup C k a)"
  using bounded_record [of a C k]
  by (auto simp: keepsFrame_def record_keeps handlerBudget_def handlerCalls_def)

lemma keepsFrame_call:
  assumes "callHandlerIfActionNotHandled C event keyName bitmapIndex cid a = (e, b)"
  shows "keepsFrame a b"
  using assms
  by (cases rule: callHandler_cases [of C event keyName bitmapIndex cid a])
     (auto simp: keepsFrame_def registration_def historyBounded_def handlerBudget_def handlerCalls_def)

lemma root_registration:
  "registration b = registration a \<Longrightarrow> isFocusTreeRoot cid b = isFocusTreeRoot cid a"
  by (simp add: registration_def isFocusTreeRoot_def)

lemma update_keeps:
  "registration (updateEventPropagationHistory cid a) = registration a"
  "historyBounded (updateEventPropagationHistory cid a) = historyBounded a"
  "keypressEventsToSimulate (updateEventPropagationHistory cid a) = keypressEventsToSimulate a"
  "handlerCalls (updateEventPropagationHistory cid a) = handlerCalls a"
  "\<not> isFocusTreeRoot cid a \<Longrightarrow> handlerBudget (updateEventPropagationHistory cid a) = handlerBudget a"
  "previousComponentIndex (eventPropagationState (updateEventPropagationHistory cid a)) \<le> cid"
  by (simp_all add: registration_def historyBounded_def handlerBudget_def handlerCalls_def
      updateEventPropagationHistory_def clearEventPropagationState_def)

lemma calls_le_budget: "handlerCalls a \<le> handlerBudget a"
  by (simp add: handlerBudget_def)

text \<open>What a call of handleKeypress or handleKeyup keeps.\<close>

definition keptByCall :: "nat \<Rightarrow> Strategy \<Rightarrow> Strategy \<Rightarrow> bool" where
  "keptByCall cid s s' =
    (registration s' = registration s
     \<and> (historyBounded s \<longrightarrow> historyBounded s')
     \<and> keypressEventsToSimulate s' = keypressEventsToSimulate s
     \<and> handlerCalls s' \<le> handlerBudget s
     \<and> handlerCalls s \<le> handlerCalls s'
     \<and> previousComponentIndex (eventPropagationState s')
          \<le> max (previousComponentIndex (eventPropagationState s)) cid
     \<and> (\<not> isFocusTreeRoot cid s \<longrightarrow> handlerBudget s' \<le> handlerBudget s))"

lemma keptByCall_shape:
  assumes "keepsFrame s pre" and "s' = pre \<or> s' = updateEventPropagationHistory cid pre"
  shows "keptByCall cid s s'"
proof -
  have root: "isFocusTreeRoot cid pre = isFocusTreeRoot cid s"
    using assms(1) root_registration [of pre s cid] unfolding keepsFrame_def by blast
  have calls: "handlerCalls pre \<le> handlerBudget s"
    using assms(1) calls_le_budget [of pre] by (simp add: keepsFrame_def)
  have prev: "previousComponentIndex (eventPropagationState pre)
          \<le> max (previousComponentIndex (eventPropagationState s)) cid"
    using assms(1) by (simp add: keepsFrame_def)
  have pre: "keptByCall cid s pre"
    using assms(1) calls prev unfolding keptByCall_def keepsFrame_def by blast
  have prev': "previousComponentIndex (eventPropagationState (updateEventPropagationHistory cid pre))
          \<le> max (previousComponentIndex (eventPropagationState s)) cid"
    using update_keeps(6) [of cid pre] by simp
  have "keptByCall cid s (updateEventPropagationHistory cid pre)"
  proof (cases "isFocusTreeRoot cid s")
    case True
    then show ?thesis using pre prev' unfolding keptByCall_def update_keeps(1-4) by blast
  next
    case False
    then have "handlerBudget (updateEventPropagationHistory cid pre) = handlerBudget pre"
      using root update_keeps(5) by blast
    then show ?thesis using pre prev' unfolding keptByCall_def update_keeps(1-4) by presburger
  qed
  then show ?thesis using assms(2) pre by blast
qed

lemma handleKeypress_kept: "keptByCall cid s (snd (handleKeypress C event ftid cid opts s))"
proof -
  have "\<exists>pre. keepsFrame s pre \<and>
      (snd (handleKeypress C event ftid cid opts s) = pre
       \<or> snd (handleKeypress C event ftid cid opts s) = updateEventPropagationHistory cid pre)"
  proof (rule handleKeypress_shape [where R = keepsFrame])
    show "\<And>a b c. keepsFrame a b \<Longrightarrow> keepsFrame b c \<Longrightarrow> keepsFrame a c"
      by (rule keepsFrame_trans)
  qed (rule keepsFrame_refl keepsFrame_seen keepsFrame_record keepsFrame_call, assumption?)+
  then show ?thesis using keptByCall_shape by blast
qed

lemma handleKeyup_kept: "keptByCall cid s (snd (handleKeyup C event ftid cid opts s))"
proof -
  have "\<exists>pre. keepsFrame s pre \<and>
      (snd (handleKeyup C event ftid cid opts s) = pre
       \<or> snd (handleKeyup C event ftid cid opts s) = updateEventPropagationHistory cid pre)"
  proof (rule handleKeyup_shape [where R = keepsFrame])
    show "\<And>a b c. keepsFrame a b \<Longrightarrow> keepsFrame b c \<Longrightarrow> keepsFrame a c"
      by (rule keepsFrame_trans)
  qed (rule keepsFrame_refl keepsFrame_seen keepsFrame_record keepsFrame_call, assumption?)+
  then show ?thesis using keptByCall_shape by blast
qed

text \<open>
  The queue of keypress events to simulate is in order when none of its entries was
  queued at the root of the focus tree: handleKeydown empties the queue at the root.
\<close>

definition queuedComponent :: "SimulatedKeypress \<Rightarrow> nat" where
  "queuedComponent x = fst (snd (snd x))"

definition noneAtRoot :: "SimulatedKeypress list \<Rightarrow> Strategy \<Rightarrow> bool" where
  "noneAtRoot q s = list_all (\<lambda>x. \<not> isFocusTreeRoot (queuedComponent x) s) q"

lemma noneAtRoot_registration:
  "registration b = registration a \<Longrightarrow> noneAtRoot q b = noneAtRoot q a"
  by (simp add: noneAtRoot_def registration_def isFocusTreeRoot_def)

lemma simulateKeypresses_kept:
  "registration (snd (simulateKeypresses C q s)) = registration s
   \<and> (historyBounded s \<longrightarrow> historyBounded (snd (simulateKeypresses C q s)))
   \<and> keypressEventsToSimulate (snd (simulateKeypresses C q s)) = keypressEventsToSimulate s
   \<and> handlerCalls s \<le> handlerCalls (snd (simulateKeypresses C q s))
   \<and> (noneAtRoot (butlast q) s \<longrightarrow> handlerCalls (snd (simulateKeypresses C q s)) \<le> handlerBudget s)
   \<and> (noneAtRoot q s \<longrightarrow> handlerBudget (snd (simulateKeypresses C q s)) \<le> handlerBudget s)"
proof (induction q arbitrary: s)
  case Nil
  show ?case by (simp add: calls_le_budget)
next
  case (Cons x rest)
  let ?cid = "queuedComponent x"
  let ?call = "handleKeypress C (fst x) (fst (snd x)) ?cid (snd (snd (snd x))) s"
  obtain r s1 where call: "?call = (r, s1)" by (cases ?call) auto
  have kept: "keptByCall ?cid s s1"
    using handleKeypress_kept [of ?cid s C "fst x" "fst (snd x)" "snd (snd (snd x))"] call by simp
  have reg: "registration s1 = registration s" using kept by (simp add: keptByCall_def)
  have calls1: "handlerCalls s1 \<le> handlerBudget s" using kept by (simp add: keptByCall_def)
  have budget1: "\<not> isFocusTreeRoot ?cid s \<Longrightarrow> handlerBudget s1 \<le> handlerBudget s"
    using kept by (simp add: keptByCall_def)
  show ?case
  proof (cases r)
    case (Inl e)
    then have res: "snd (simulateKeypresses C (x # rest) s) = s1"
      using call by (simp add: queuedComponent_def)
    show ?thesis unfolding res
      using kept calls1 budget1 by (auto simp: keptByCall_def noneAtRoot_def)
  next
    case (Inr v)
    then have res: "snd (simulateKeypresses C (x # rest) s) = snd (simulateKeypresses C rest s1)"
      using call by (simp add: queuedComponent_def)
    note IH = Cons.IH [of s1]
    have A: "registration (snd (simulateKeypresses C rest s1)) = registration s"
      using IH reg by simp
    have B: "historyBounded s \<longrightarrow> historyBounded (snd (simulateKeypresses C rest s1))"
      using IH kept by (simp add: keptByCall_def)
    have Q: "keypressEventsToSimulate (snd (simulateKeypresses C rest s1)) = keypressEventsToSimulate s"
      using IH kept by (simp add: keptByCall_def)
    have M: "handlerCalls s \<le> handlerCalls (snd (simulateKeypresses C rest s1))"
    proof -
      have "handlerCalls s \<le> handlerCalls s1" using kept by (simp add: keptByCall_def)
      moreover have "handlerCalls s1 \<le> handlerCalls (snd (simulateKeypresses C rest s1))"
        using IH by simp
      ultimately show ?thesis by simp
    qed
    have D: "noneAtRoot (butlast (x # rest)) s \<longrightarrow>
               handlerCalls (snd (simulateKeypresses C rest s1)) \<le> handlerBudget s"
    proof (cases rest)
      case Nil
      then show ?thesis using calls1 by simp
    next
      case (Cons y ys)
      show ?thesis
      proof
        assume "noneAtRoot (butlast (x # rest)) s"
        then have x: "\<not> isFocusTreeRoot ?cid s" and r: "noneAtRoot (butlast rest) s"
          using Cons by (simp_all add: noneAtRoot_def)
        have "noneAtRoot (butlast rest) s1" using r noneAtRoot_registration [OF reg] by simp
        then have "handlerCalls (snd (simulateKeypresses C rest s1)) \<le> handlerBudget s1"
          using IH by simp
        then show "handlerCalls (snd (simulateKeypresses C rest s1)) \<le> handlerBudget s"
          using budget1 [OF x] by simp
      qed
    qed
    have E: "noneAtRoot (x # rest) s \<longrightarrow>
               handlerBudget (snd (simulateKeypresses C rest s1)) \<le> handlerBudget s"
    proof
      assume "noneAtRoot (x # rest) s"
      then have x: "\<not> isFocusTreeRoot ?cid s" and r: "noneAtRoot rest s"
        by (simp_all add: noneAtRoot_def)
      have "noneAtRoot rest s1" using r noneAtRoot_registration [OF reg] by simp
      then have "handlerBudget (snd (simulateKeypresses C rest s1)) \<le> handlerBudget s1"
        using IH by simp
      then show "handlerBudget (snd (simulateKeypresses C rest s1)) \<le> handlerBudget s"
        using budget1 [OF x] by simp
    qed
    show ?thesis unfolding res using A B Q M D E by blast
  qed
qed

text \<open>
  What a call of handleKeydown keeps, from a state whose queue is in order: at a
  component that is not the root the budget does not grow and the queue stays in order;
  at the root at most the budget is spent, simulated keypress events included.
\<close>

lemma handleKeydown_kept:
  assumes Q: "noneAtRoot (keypressEventsToSimulate s) s"
  shows "registration (snd (handleKeydown C event ftid cid opts s)) = registration s
   \<and> (historyBounded s \<longrightarrow> historyBounded (snd (handleKeydown C event ftid cid opts s)))
   \<and> handlerCalls (snd (handleKeydown C event ftid cid opts s)) \<le> handlerBudget s
   \<and> (\<not> isFocusTreeRoot cid s \<longrightarrow>
         handlerBudget (snd (handleKeydown C event ftid cid opts s)) \<le> handlerBudget s
         \<and> noneAtRoot (keypressEventsToSimulate (snd (handleKeydown C event ftid cid opts s)))
              (snd (handleKeydown C event ftid cid opts s)))"
proof -
  let ?s' = "snd (handleKeydown C event ftid cid opts s)"
  let ?goal = "\<lambda>s'. registration s' = registration s
   \<and> (historyBounded s \<longrightarrow> historyBounded s')
   \<and> handlerCalls s' \<le> handlerBudget s
   \<and> (\<not> isFocusTreeRoot cid s \<longrightarrow>
         handlerBudget s' \<le> handlerBudget s \<and> noneAtRoot (keypressEventsToSimulate s') s')"
  have shape: "\<exists>pre. keepsFrame s pre \<and>
          (?s' = pre
           \<or> ?s' = updateEventPropagationHistory cid pre
           \<or> (\<exists>s4. (s4 = pre \<or> s4 = pre\<lparr>keypressEventsToSimulate :=
                                         keypressEventsToSimulate pre @ [(event, ftid, cid, opts)]\<rparr>) \<and>
                 ((\<not> isFocusTreeRoot cid s4 \<and> ?s' = updateEventPropagationHistory cid s4)
                  \<or> (isFocusTreeRoot cid s4 \<and>
                      (\<exists>e s5. simulateKeypresses C (keypressEventsToSimulate s4) s4 = (e, s5) \<and>
                         (?s' = s5
                          \<or> ?s' = updateEventPropagationHistory cid (s5\<lparr>keypressEventsToSimulate := []\<rparr>)))))))"
  proof (rule handleKeydown_shape [where R = keepsFrame])
    show "\<And>a b c. keepsFrame a b \<Longrightarrow> keepsFrame b c \<Longrightarrow> keepsFrame a c"
      by (rule keepsFrame_trans)
  qed (rule keepsFrame_refl keepsFrame_seen keepsFrame_record keepsFrame_call, assumption?)+
  then obtain pre where pre: "keepsFrame s pre"
    and cases: "?s' = pre
           \<or> ?s' = updateEventPropagationHistory cid pre
           \<or> (\<exists>s4. (s4 = pre \<or> s4 = pre\<lparr>keypressEventsToSimulate :=
                                         keypressEventsToSimulate pre @ [(event, ftid, cid, opts)]\<rparr>) \<and>
                 ((\<not> isFocusTreeRoot cid s4 \<and> ?s' = updateEventPropagationHistory cid s4)
                  \<or> (isFocusTreeRoot cid s4 \<and>
                      (\<exists>e s5. simulateKeypresses C (keypressEventsToSimulate s4) s4 = (e, s5) \<and>
                         (?s' = s5
                          \<or> ?s' = updateEventPropagationHistory cid (s5\<lparr>keypressEventsToSimulate := []\<rparr>))))))"
    by blast
  have reg: "registration pre = registration s" using pre by (simp add: keepsFrame_def)
  have queue: "keypressEventsToSimulate pre = keypressEventsToSimulate s"
    using pre by (simp add: keepsFrame_def)
  have budpre: "handlerBudget pre \<le> handlerBudget s" using pre by (simp add: keepsFrame_def)
  have boundpre: "historyBounded s \<longrightarrow> historyBounded pre" using pre by (simp add: keepsFrame_def)
  have Qpre: "noneAtRoot (keypressEventsToSimulate pre) pre"
    using Q queue noneAtRoot_registration [OF reg] by simp
  have goalI: "?goal a"
    if "registration a = registration s" and "historyBounded s \<longrightarrow> historyBounded a"
      and "handlerCalls a \<le> handlerBudget s"
      and "\<not> isFocusTreeRoot cid s \<Longrightarrow> handlerBudget a \<le> handlerBudget s"
      and "\<not> isFocusTreeRoot cid s \<Longrightarrow> noneAtRoot (keypressEventsToSimulate a) a" for a
    using that by blast
  have G1: "?goal pre"
  proof (rule goalI)
    show "handlerCalls pre \<le> handlerBudget s"
      using budpre calls_le_budget [of pre] by simp
  qed (use reg boundpre budpre Qpre in simp_all)
  have upd: "?goal (updateEventPropagationHistory cid a)" if a: "?goal a" for a
  proof (rule goalI)
    have rega: "registration a = registration s" using a by blast
    show "registration (updateEventPropagationHistory cid a) = registration s"
      using rega by (simp add: update_keeps)
    show "historyBounded s \<longrightarrow> historyBounded (updateEventPropagationHistory cid a)"
      using a by (simp add: update_keeps)
    show "handlerCalls (updateEventPropagationHistory cid a) \<le> handlerBudget s"
      using a by (simp add: update_keeps)
    assume nr: "\<not> isFocusTreeRoot cid s"
    then have nra: "\<not> isFocusTreeRoot cid a" using root_registration [OF rega] by simp
    show "handlerBudget (updateEventPropagationHistory cid a) \<le> handlerBudget s"
      using a nr nra by (simp add: update_keeps)
    have "noneAtRoot (keypressEventsToSimulate a) a" using a nr by blast
    then show "noneAtRoot (keypressEventsToSimulate (updateEventPropagationHistory cid a))
                 (updateEventPropagationHistory cid a)"
      using noneAtRoot_registration [OF update_keeps(1), of _ cid a] by (simp add: update_keeps)
  qed
  have after: "?goal ?s'"
    if s4: "s4 = pre \<or> s4 = pre\<lparr>keypressEventsToSimulate :=
                                         keypressEventsToSimulate pre @ [(event, ftid, cid, opts)]\<rparr>"
      and rest: "(\<not> isFocusTreeRoot cid s4 \<and> ?s' = updateEventPropagationHistory cid s4)
                  \<or> (isFocusTreeRoot cid s4 \<and>
                      (\<exists>e s5. simulateKeypresses C (keypressEventsToSimulate s4) s4 = (e, s5) \<and>
                         (?s' = s5
                          \<or> ?s' = updateEventPropagationHistory cid (s5\<lparr>keypressEventsToSimulate := []\<rparr>))))"
    for s4
  proof -
    have reg4: "registration s4 = registration s"
      using s4 reg by (auto simp: registration_def)
    have bud4: "handlerBudget s4 = handlerBudget pre"
      using s4 by (auto simp: handlerBudget_def handlerCalls_def)
    have bound4: "historyBounded s4 = historyBounded pre"
      using s4 by (auto simp: historyBounded_def)
    have root4: "isFocusTreeRoot cid s4 = isFocusTreeRoot cid s"
      using root_registration [OF reg4] by simp
    have same4: "noneAtRoot q s4 = noneAtRoot q pre" for q
      using noneAtRoot_registration [of s4 pre q] reg4 reg by simp
    have butlast_all: "list_all P (butlast xs)" if "list_all P xs"
      for P and xs :: "SimulatedKeypress list"
      using that by (induction xs) auto
    have "noneAtRoot (butlast (keypressEventsToSimulate pre)) pre"
      using Qpre butlast_all by (simp add: noneAtRoot_def)
    then have "noneAtRoot (butlast (keypressEventsToSimulate s4)) pre"
      using s4 Qpre by (elim disjE) simp_all
    then have butlast4: "noneAtRoot (butlast (keypressEventsToSimulate s4)) s4"
      by (simp only: same4)
    have G4: "?goal s4" if nr4: "\<not> isFocusTreeRoot cid s4"
    proof (rule goalI)
      show "registration s4 = registration s" by (rule reg4)
      show "historyBounded s \<longrightarrow> historyBounded s4" using boundpre bound4 by simp
      show "handlerCalls s4 \<le> handlerBudget s"
        using budpre bud4 calls_le_budget [of s4] by simp
      show "handlerBudget s4 \<le> handlerBudget s" using budpre bud4 by simp
      have "\<not> isFocusTreeRoot cid pre" using nr4 root4 root_registration [OF reg] by simp
      then have "noneAtRoot (keypressEventsToSimulate pre @ [(event, ftid, cid, opts)]) pre"
        using Qpre by (simp add: noneAtRoot_def queuedComponent_def)
      then have "noneAtRoot (keypressEventsToSimulate s4) pre"
        using s4 Qpre by (elim disjE) simp_all
      then show "noneAtRoot (keypressEventsToSimulate s4) s4"
        by (simp only: same4)
    qed
    show ?thesis
    proof (cases "isFocusTreeRoot cid s4")
      case False
      then have "?s' = updateEventPropagationHistory cid s4" using rest by blast
      then show ?thesis using upd [OF G4 [OF False]] by simp
    next
      case True
      then obtain e s5 where sim: "simulateKeypresses C (keypressEventsToSimulate s4) s4 = (e, s5)"
        and res: "?s' = s5 \<or> ?s' = updateEventPropagationHistory cid (s5\<lparr>keypressEventsToSimulate := []\<rparr>)"
        using rest by blast
      have K: "registration s5 = registration s4
            \<and> (historyBounded s4 \<longrightarrow> historyBounded s5)
            \<and> handlerCalls s5 \<le> handlerBudget s4"
        using simulateKeypresses_kept [of C "keypressEventsToSimulate s4" s4] sim butlast4 by simp
      have root: "isFocusTreeRoot cid s" using True root4 by simp
      have G5: "?goal s5"
      proof (rule goalI)
        show "registration s5 = registration s" using K reg4 by simp
        show "historyBounded s \<longrightarrow> historyBounded s5" using K boundpre bound4 by simp
        show "handlerCalls s5 \<le> handlerBudget s" using K bud4 budpre by simp
      qed (use root in simp_all)
      have G6: "?goal (s5\<lparr>keypressEventsToSimulate := []\<rparr>)"
      proof (rule goalI)
        show "registration (s5\<lparr>keypressEventsToSimulate := []\<rparr>) = registration s"
          using K reg4 by (simp add: registration_def)
        show "historyBounded s \<longrightarrow> historyBounded (s5\<lparr>keypressEventsToSimulate := []\<rparr>)"
          using K boundpre bound4 by (simp add: historyBounded_def)
        show "handlerCalls (s5\<lparr>keypressEventsToSimulate := []\<rparr>) \<le> handlerBudget s"
          using K bud4 budpre by (simp add: handlerCalls_def)
      qed (use root in simp_all)
      from res show ?thesis
      proof
        assume "?s' = s5"
        then show ?thesis using G5 by simp
      next
        assume "?s' = updateEventPropagationHistory cid (s5\<lparr>keypressEventsToSimulate := []\<rparr>)"
        then show ?thesis using upd [OF G6] by simp
      qed
    qed
  qed
  from cases consider (a) "?s' = pre" | (b) "?s' = updateEventPropagationHistory cid pre"
    | (c) s4 where "s4 = pre \<or> s4 = pre\<lparr>keypressEventsToSimulate :=
                                         keypressEventsToSimulate pre @ [(event, ftid, cid, opts)]\<rparr>"
      and "(\<not> isFocusTreeRoot cid s4 \<and> ?s' = updateEventPropagationHistory cid s4)
                  \<or> (isFocusTreeRoot cid s4 \<and>
                      (\<exists>e s5. simulateKeypresses C (keypressEventsToSimulate s4) s4 = (e, s5) \<and>
                         (?s' = s5
                          \<or> ?s' = updateEventPropagationHistory cid (s5\<lparr>keypressEventsToSimulate := []\<rparr>))))"
    by blast
  then show ?thesis
  proof cases
    case a
    then show ?thesis using G1 by simp
  next
    case b
    then show ?thesis using upd [OF G1] by simp
  next
    case (c s4)
    then show ?thesis by (rule after)
  qed
qed


text \<open>What a call of handleKeydown keeps from any state.\<close>

lemma handleKeydown_keeps:
  "registration (snd (handleKeydown C event ftid cid opts s)) = registration s
   \<and> (historyBounded s \<longrightarrow> historyBounded (snd (handleKeydown C event ftid cid opts s)))
   \<and> handlerCalls s \<le> handlerCalls (snd (handleKeydown C event ftid cid opts s))"
proof -
  let ?s' = "snd (handleKeydown C event ftid cid opts s)"
  let ?goal = "\<lambda>s'. registration s' = registration s
   \<and> (historyBounded s \<longrightarrow> historyBounded s') \<and> handlerCalls s \<le> handlerCalls s'"
  have shape: "\<exists>pre. keepsFrame s pre \<and>
          (?s' = pre
           \<or> ?s' = updateEventPropagationHistory cid pre
           \<or> (\<exists>s4. (s4 = pre \<or> s4 = pre\<lparr>keypressEventsToSimulate :=
                                         keypressEventsToSimulate pre @ [(event, ftid, cid, opts)]\<rparr>) \<and>
                 ((\<not> isFocusTreeRoot cid s4 \<and> ?s' = updateEventPropagationHistory cid s4)
                  \<or> (isFocusTreeRoot cid s4 \<and>
                      (\<exists>e s5. simulateKeypresses C (keypressEventsToSimulate s4) s4 = (e, s5) \<and>
                         (?s' = s5
                          \<or> ?s' = updateEventPropagationHistory cid (s5\<lparr>keypressEventsToSimulate := []\<rparr>)))))))"
  proof (rule handleKeydown_shape [where R = keepsFrame])
    show "\<And>a b c. keepsFrame a b \<Longrightarrow> keepsFrame b c \<Longrightarrow> keepsFrame a c"
      by (rule keepsFrame_trans)
  qed (rule keepsFrame_refl keepsFrame_seen keepsFrame_record keepsFrame_call, assumption?)+
  then obtain pre where pre: "keepsFrame s pre"
    and cases: "?s' = pre
           \<or> ?s' = updateEventPropagationHistory cid pre
           \<or> (\<exists>s4. (s4 = pre \<or> s4 = pre\<lparr>keypressEventsToSimulate :=
                                         keypressEventsToSimulate pre @ [(event, ftid, cid, opts)]\<rparr>) \<and>
                 ((\<not> isFocusTreeRoot cid s4 \<and> ?s' = updateEventPropagationHistory cid s4)
                  \<or> (isFocusTreeRoot cid s4 \<and>
                      (\<exists>e s5. simulateKeypresses C (keypressEventsToSimulate s4) s4 = (e, s5) \<and>
                         (?s' = s5
                          \<or> ?s' = updateEventPropagationHistory cid (s5\<lparr>keypressEventsToSimulate := []\<rparr>))))))"
    by blast
  have G1: "?goal pre" using pre by (simp add: keepsFrame_def)
  have upd: "?goal (updateEventPropagationHistory cid a)" if "?goal a" for a
    using that by (simp add: update_keeps)
  have after: "?goal ?s'"
    if s4: "s4 = pre \<or> s4 = pre\<lparr>keypressEventsToSimulate :=
                                         keypressEventsToSimulate pre @ [(event, ftid, cid, opts)]\<rparr>"
      and rest: "(\<not> isFocusTreeRoot cid s4 \<and> ?s' = updateEventPropagationHistory cid s4)
                  \<or> (isFocusTreeRoot cid s4 \<and>
                      (\<exists>e s5. simulateKeypresses C (keypressEventsToSimulate s4) s4 = (e, s5) \<and>
                         (?s' = s5
                          \<or> ?s' = updateEventPropagationHistory cid (s5\<lparr>keypressEventsToSimulate := []\<rparr>))))"
    for s4
  proof -
    have "registration s4 = registration pre \<and> historyBounded s4 = historyBounded pre
          \<and> handlerCalls s4 = handlerCalls pre"
      using s4 by (elim disjE) (simp_all add: registration_def historyBounded_def handlerCalls_def)
    then have G4: "?goal s4" using G1 by simp
    show ?thesis
    proof (cases "isFocusTreeRoot cid s4")
      case False
      then have "?s' = updateEventPropagationHistory cid s4" using rest by blast
      then show ?thesis using upd [OF G4] by simp
    next
      case True
      then obtain e s5 where sim: "simulateKeypresses C (keypressEventsToSimulate s4) s4 = (e, s5)"
        and res: "?s' = s5 \<or> ?s' = updateEventPropagationHistory cid (s5\<lparr>keypressEventsToSimulate := []\<rparr>)"
        using rest by blast
      have K: "registration s5 = registration s4
            \<and> (historyBounded s4 \<longrightarrow> historyBounded s5)
            \<and> handlerCalls s4 \<le> handlerCalls s5"
        using simulateKeypresses_kept [of C "keypressEventsToSimulate s4" s4] sim by simp
      have G5: "?goal s5" using K G4 by simp
      have "registration (s5\<lparr>keypressEventsToSimulate := []\<rparr>) = registration s5
          \<and> historyBounded (s5\<lparr>keypressEventsToSimulate := []\<rparr>) = historyBounded s5
          \<and> handlerCalls (s5\<lparr>keypressEventsToSimulate := []\<rparr>) = handlerCalls s5"
        by (simp add: registration_def historyBounded_def handlerCalls_def)
      then have G6: "?goal (s5\<lparr>keypressEventsToSimulate := []\<rparr>)"
        using G5 by simp
      from res show ?thesis
      proof
        assume "?s' = s5"
        then show ?thesis using G5 by simp
      next
        assume "?s' = updateEventPropagationHistory cid (s5\<lparr>keypressEventsToSimulate := []\<rparr>)"
        then show ?thesis using upd [OF G6] by simp
      qed
    qed
  qed
  from cases consider (a) "?s' = pre" | (b) "?s' = updateEventPropagationHistory cid pre"
    | (c) s4 where "s4 = pre \<or> s4 = pre\<lparr>keypressEventsToSimulate :=
                                         keypressEventsToSimulate pre @ [(event, ftid, cid, opts)]\<rparr>"
      and "(\<not> isFocusTreeRoot cid s4 \<and> ?s' = updateEventPropagationHistory cid s4)
                  \<or> (isFocusTreeRoot cid s4 \<and>
                      (\<exists>e s5. simulateKeypresses C (keypressEventsToSimulate s4) s4 = (e, s5) \<and>
                         (?s' = s5
                          \<or> ?s' = updateEventPropagationHistory cid (s5\<lparr>keypressEventsToSimulate := []\<rparr>))))"
    by blast
  then show ?thesis
  proof cases
    case a
    then show ?thesis using G1 by simp
  next
    case b
    then show ?thesis using upd [OF G1] by simp
  next
    case (c s4)
    then show ?thesis by (rule after)
  qed
qed

section \<open>Sequences of calls\<close>

text \<open>
  A call of one of the three handlers for a component, and the state after a list of
  calls (the value a call returns and a TypeError it throws leave the state as the call
  made it).
\<close>

datatype KeyEventCall =
  KeydownCall KeyboardEvent nat nat HandlerOptions
| KeypressCall KeyboardEvent nat nat HandlerOptions
| KeyupCall KeyboardEvent nat nat HandlerOptions

fun calledComponent :: "KeyEventCall \<Rightarrow> nat" where
  "calledComponent (KeydownCall event ftid cid opts) = cid"
| "calledComponent (KeypressCall event ftid cid opts) = cid"
| "calledComponent (KeyupCall event ftid cid opts) = cid"

fun deliver :: "Collaborators \<Rightarrow> KeyEventCall \<Rightarrow> Strategy \<Rightarrow> Strategy" where
  "deliver C (KeydownCall event ftid cid opts) s = snd (handleKeydown C event ftid cid opts s)"
| "deliver C (KeypressCall event ftid cid opts) s = snd (handleKeypress C event ftid cid opts s)"
| "deliver C (KeyupCall event ftid cid opts) s = snd (handleKeyup C event ftid cid opts s)"

definition deliverAll :: "Collaborators \<Rightarrow> KeyEventCall list \<Rightarrow> Strategy \<Rightarrow> Strategy" where
  "deliverAll C calls s = fold (deliver C) calls s"

lemma deliver_keeps:
  "registration (deliver C c s) = registration s
   \<and> (historyBounded s \<longrightarrow> historyBounded (deliver C c s))
   \<and> handlerCalls s \<le> handlerCalls (deliver C c s)"
proof (cases c)
  case (KeydownCall event ftid cid opts)
  then show ?thesis using handleKeydown_keeps [of C event ftid cid opts s] by simp
next
  case (KeypressCall event ftid cid opts)
  then show ?thesis using handleKeypress_kept [of cid s C event ftid opts]
    by (simp add: keptByCall_def)
next
  case (KeyupCall event ftid cid opts)
  then show ?thesis using handleKeyup_kept [of cid s C event ftid opts]
    by (simp add: keptByCall_def)
qed

lemma deliverAll_keeps:
  "registration (deliverAll C calls s) = registration s
   \<and> (historyBounded s \<longrightarrow> historyBounded (deliverAll C calls s))
   \<and> handlerCalls s \<le> handlerCalls (deliverAll C calls s)"
proof (induction calls arbitrary: s)
  case Nil
  show ?case by (simp add: deliverAll_def)
next
  case (Cons c calls)
  have step: "deliverAll C (c # calls) s = deliverAll C calls (deliver C c s)"
    by (simp add: deliverAll_def)
  show ?case unfolding step
    using deliver_keeps [of C c s] Cons.IH [of "deliver C c s"] by auto
qed

lemma deliver_budget:
  assumes "noneAtRoot (keypressEventsToSimulate s) s"
  shows "handlerCalls (deliver C c s) \<le> handlerBudget s
   \<and> (\<not> isFocusTreeRoot (calledComponent c) s \<longrightarrow>
         handlerBudget (deliver C c s) \<le> handlerBudget s
         \<and> noneAtRoot (keypressEventsToSimulate (deliver C c s)) (deliver C c s))"
proof (cases c)
  case (KeydownCall event ftid cid opts)
  then show ?thesis using handleKeydown_kept [OF assms, of C event ftid cid opts] by simp
next
  case (KeypressCall event ftid cid opts)
  have k: "keptByCall cid s (deliver C c s)"
    using KeypressCall handleKeypress_kept [of cid s C event ftid opts] by simp
  then have "noneAtRoot (keypressEventsToSimulate (deliver C c s)) (deliver C c s)"
    using assms noneAtRoot_registration [of "deliver C c s" s] by (simp add: keptByCall_def)
  then show ?thesis using k KeypressCall by (simp add: keptByCall_def)
next
  case (KeyupCall event ftid cid opts)
  have k: "keptByCall cid s (deliver C c s)"
    using KeyupCall handleKeyup_kept [of cid s C event ftid opts] by simp
  then have "noneAtRoot (keypressEventsToSimulate (deliver C c s)) (deliver C c s)"
    using assms noneAtRoot_registration [of "deliver C c s" s] by (simp add: keptByCall_def)
  then show ?thesis using k KeyupCall by (simp add: keptByCall_def)
qed

text \<open>
  One bubble: calls of which only the last may be at the root of the focus tree.
\<close>

definition oneBubble :: "KeyEventCall list \<Rightarrow> Strategy \<Rightarrow> bool" where
  "oneBubble calls s = list_all (\<lambda>c. \<not> isFocusTreeRoot (calledComponent c) s) (butlast calls)"

lemma bubble_budget:
  assumes "noneAtRoot (keypressEventsToSimulate s) s" and "oneBubble calls s"
  shows "handlerCalls (deliverAll C calls s) \<le> handlerBudget s"
  using assms
proof (induction calls arbitrary: s)
  case Nil
  show ?case by (simp add: deliverAll_def calls_le_budget)
next
  case (Cons c calls)
  have step: "deliverAll C (c # calls) s = deliverAll C calls (deliver C c s)"
    by (simp add: deliverAll_def)
  show ?case
  proof (cases calls)
    case Nil
    then show ?thesis using deliver_budget [OF Cons.prems(1), of C c] by (simp add: deliverAll_def)
  next
    case (Cons d ds)
    then have nr: "\<not> isFocusTreeRoot (calledComponent c) s" and rest: "oneBubble calls s"
      using Cons.prems(2) by (simp_all add: oneBubble_def)
    have reg: "registration (deliver C c s) = registration s"
      using deliver_keeps [of C c s] by simp
    have B: "handlerBudget (deliver C c s) \<le> handlerBudget s"
      and Q: "noneAtRoot (keypressEventsToSimulate (deliver C c s)) (deliver C c s)"
      using deliver_budget [OF Cons.prems(1), of C c] nr by simp_all
    have "oneBubble calls (deliver C c s)"
      using rest reg by (simp add: oneBubble_def registration_def isFocusTreeRoot_def)
    then have "handlerCalls (deliverAll C calls (deliver C c s)) \<le> handlerBudget (deliver C c s)"
      using Cons.IH [OF Q] by simp
    then show ?thesis unfolding step using B by simp
  qed
qed

section \<open>At most one handler for one key event\<close>

text \<open>
  C1. While one key event bubbles through the components (calls of the handlers of which
  only the last may be at the root of the focus tree, from a state whose queue of
  keypress events to simulate holds no entry queued at the root), at most one handler is
  called, keypress events simulated at the root included; if actionHandled is already
  true, none is called and _callHandlerIfActionNotHandled leaves the state as it is; and
  a call of _callHandlerIfActionNotHandled that calls a handler calls one and sets
  actionHandled.
\<close>

theorem at_most_one_handler_per_event:
  assumes "noneAtRoot (keypressEventsToSimulate s) s" and "oneBubble calls s"
  shows "handlerCalls (deliverAll C calls s) \<le> handlerCalls s + 1
       \<and> (actionHandled (eventPropagationState s) \<longrightarrow>
            handlerCalls (deliverAll C calls s) = handlerCalls s
            \<and> callHandlerIfActionNotHandled C event keyName bitmapIndex cid s = (None, s))
       \<and> handlerCalls (snd (callHandlerIfActionNotHandled C event keyName bitmapIndex cid s))
            \<le> handlerCalls s + 1
       \<and> (handlerCalls (snd (callHandlerIfActionNotHandled C event keyName bitmapIndex cid s))
              = handlerCalls s + 1 \<longrightarrow>
            actionHandled (eventPropagationState
              (snd (callHandlerIfActionNotHandled C event keyName bitmapIndex cid s))))"
proof -
  have budget: "handlerCalls (deliverAll C calls s) \<le> handlerBudget s"
    by (rule bubble_budget [OF assms])
  have mono: "handlerCalls s \<le> handlerCalls (deliverAll C calls s)"
    using deliverAll_keeps [of C calls s] by simp
  have A: "handlerCalls (deliverAll C calls s) \<le> handlerCalls s + 1"
    using budget by (simp add: handlerBudget_def split: if_splits)
  have B: "actionHandled (eventPropagationState s) \<longrightarrow>
            handlerCalls (deliverAll C calls s) = handlerCalls s
            \<and> callHandlerIfActionNotHandled C event keyName bitmapIndex cid s = (None, s)"
    using budget mono by (auto simp: handlerBudget_def callHandlerIfActionNotHandled_def)
  have D: "handlerCalls (snd (callHandlerIfActionNotHandled C event keyName bitmapIndex cid s))
            \<le> handlerCalls s + 1
       \<and> (handlerCalls (snd (callHandlerIfActionNotHandled C event keyName bitmapIndex cid s))
              = handlerCalls s + 1 \<longrightarrow>
            actionHandled (eventPropagationState
              (snd (callHandlerIfActionNotHandled C event keyName bitmapIndex cid s))))"
    by (cases rule: callHandler_cases [of C event keyName bitmapIndex cid s])
       (auto simp: handlerCalls_def)
  show ?thesis using A B D by blast
qed

text \<open>
  The innermost of two components handles SAVE on keydown of a: the keydown of a that
  bubbles through both calls the handler of the innermost and no other.
\<close>

theorem at_most_one_handler_per_event_witness:
  "noneAtRoot (keypressEventsToSimulate twoScopes) twoScopes
   \<and> oneBubble [KeydownCall (keyEvent ''a'') 1 0 neverIgnore,
                 KeydownCall (keyEvent ''a'') 1 1 neverIgnore] twoScopes
   \<and> handlerCalls (deliverAll exampleCollaborators
         [KeydownCall (keyEvent ''a'') 1 0 neverIgnore,
          KeydownCall (keyEvent ''a'') 1 1 neverIgnore] twoScopes) \<le> handlerCalls twoScopes + 1
   \<and> filter isHandlerCall (effects (deliverAll exampleCollaborators
         [KeydownCall (keyEvent ''a'') 1 0 neverIgnore,
          KeydownCall (keyEvent ''a'') 1 1 neverIgnore] twoScopes))
       = [HandlerCalled (Handler 0) (keyEvent ''a'')]"
proof -
  have q: "noneAtRoot (keypressEventsToSimulate twoScopes) twoScopes"
    by code_simp
  have b: "oneBubble [KeydownCall (keyEvent ''a'') 1 0 neverIgnore,
                      KeydownCall (keyEvent ''a'') 1 1 neverIgnore] twoScopes"
    by code_simp
  have e: "filter isHandlerCall (effects (deliverAll exampleCollaborators
         [KeydownCall (keyEvent ''a'') 1 0 neverIgnore,
          KeydownCall (keyEvent ''a'') 1 1 neverIgnore] twoScopes))
       = [HandlerCalled (Handler 0) (keyEvent ''a'')]"
    by code_simp
  show ?thesis
    using q b e at_most_one_handler_per_event [OF q b, of exampleCollaborators]
    by blast
qed

section \<open>The bound on the key combination history\<close>

text \<open>
  C3. With the registered components fixed, if the key combination history is no longer
  than longestSequence + 1, it is no longer than that after any calls of the handlers
  for keydown, keypress and keyup events, which do not change longestSequence; and
  starting a new combination when the history is longer than longestSequence drops the
  oldest entry, the first of the list, before it appends the new one.
\<close>

theorem history_length_bounded:
  assumes "length (keyCombinationHistory s) \<le> longestSequence s + 1"
  shows "length (keyCombinationHistory (deliverAll C calls s)) \<le> longestSequence s + 1
       \<and> longestSequence (deliverAll C calls s) = longestSequence s
       \<and> componentList (deliverAll C calls s) = componentList s
       \<and> keyCombinationHistory (startNewKeyCombination C keyName bitmapIndex s)
           = (if length (keyCombinationHistory s) > longestSequence s
              then tl (keyCombinationHistory s) else keyCombinationHistory s)
             @ [getCurrentKeyCombination (startNewKeyCombination C keyName bitmapIndex s)]
       \<and> length (keyCombinationHistory (startNewKeyCombination C keyName bitmapIndex s))
           \<le> longestSequence s + 1"
proof -
  have "historyBounded s" using assms by (simp add: historyBounded_def)
  then have "historyBounded (deliverAll C calls s)"
    and reg: "registration (deliverAll C calls s) = registration s"
    using deliverAll_keeps [of C calls s] by simp_all
  then have A: "length (keyCombinationHistory (deliverAll C calls s)) \<le> longestSequence s + 1
       \<and> longestSequence (deliverAll C calls s) = longestSequence s
       \<and> componentList (deliverAll C calls s) = componentList s"
    by (simp add: historyBounded_def registration_def)
  have B: "keyCombinationHistory (startNewKeyCombination C keyName bitmapIndex s)
           = (if length (keyCombinationHistory s) > longestSequence s
              then tl (keyCombinationHistory s) else keyCombinationHistory s)
             @ [getCurrentKeyCombination (startNewKeyCombination C keyName bitmapIndex s)]"
    by (simp add: startNewKeyCombination_def getCurrentKeyCombination_def currentOf_def Let_def)
  have D: "length (keyCombinationHistory (startNewKeyCombination C keyName bitmapIndex s))
           \<le> longestSequence s + 1"
    using assms by (auto simp: startNewKeyCombination_def Let_def)
  show ?thesis using A B D by blast
qed

text \<open>
  With longestSequence 1, the keys a, b and a again are pressed and released in turn: the
  third combination pushes the first out of the history.
\<close>

theorem history_length_bounded_witness:
  "length (keyCombinationHistory oneScope) \<le> longestSequence oneScope + 1
   \<and> length (keyCombinationHistory (deliverAll exampleCollaborators
        [KeydownCall (keyEvent ''a'') 1 0 neverIgnore, KeyupCall (keyEvent ''a'') 1 0 neverIgnore,
         KeydownCall (keyEvent ''b'') 1 0 neverIgnore, KeyupCall (keyEvent ''b'') 1 0 neverIgnore,
         KeydownCall (keyEvent ''a'') 1 0 neverIgnore] oneScope)) \<le> longestSequence oneScope + 1
   \<and> map ids (keyCombinationHistory (deliverAll exampleCollaborators
        [KeydownCall (keyEvent ''a'') 1 0 neverIgnore, KeyupCall (keyEvent ''a'') 1 0 neverIgnore,
         KeydownCall (keyEvent ''b'') 1 0 neverIgnore, KeyupCall (keyEvent ''b'') 1 0 neverIgnore,
         KeydownCall (keyEvent ''a'') 1 0 neverIgnore] oneScope)) = [[''b''], [''a'']]"
proof -
  have h: "length (keyCombinationHistory oneScope) \<le> longestSequence oneScope + 1"
    by code_simp
  have e: "map ids (keyCombinationHistory (deliverAll exampleCollaborators
        [KeydownCall (keyEvent ''a'') 1 0 neverIgnore, KeyupCall (keyEvent ''a'') 1 0 neverIgnore,
         KeydownCall (keyEvent ''b'') 1 0 neverIgnore, KeyupCall (keyEvent ''b'') 1 0 neverIgnore,
         KeydownCall (keyEvent ''a'') 1 0 neverIgnore] oneScope)) = [[''b''], [''a'']]"
    by code_simp
  show ?thesis
    using h e history_length_bounded [OF h, of exampleCollaborators]
    by blast
qed

section \<open>Starting a new key combination\<close>

lemma currentOf_shift:
  assumes "1 \<le> L"
  shows "currentOf (if length h > L then tl h else h) = currentOf h"
proof (cases "length h > L")
  case False
  then show ?thesis by simp
next
  case True
  then obtain x y ys where "h = x # y # ys"
    using assms by (cases h; cases "tl h") auto
  then show ?thesis using True by (simp add: currentOf_def)
qed

text \<open>
  C6. When a new key combination is started (longestSequence is at least 1, as it is
  from the start), its keys are exactly the keys of the prior combination whose current
  state has no keyup, each with the state it had, and the new key with a fresh state: no
  previous event, and the current bitset that newBitmap makes for the triggering kind of
  event, in which that kind is set. _withoutKeyUps is the first part, and the flag
  keyCombinationIncludesKeyUp is false afterwards.
\<close>

theorem new_combination_carries_held_keys:
  assumes "1 \<le> longestSequence s"
  shows "keys (getCurrentKeyCombination (startNewKeyCombination C keyName bitmapIndex s)) n
          = (if n = keyName then Some (newBitmap None, newBitmap (Some bitmapIndex))
             else (case keys (getCurrentKeyCombination s) n of
                     None \<Rightarrow> None
                   | Some keyState \<Rightarrow> if getBit (current keyState) keyup then None else Some keyState))
       \<and> withoutKeyUps (getCurrentKeyCombination s) n
          = (case keys (getCurrentKeyCombination s) n of
               None \<Rightarrow> None
             | Some keyState \<Rightarrow> if getBit (current keyState) keyup then None else Some keyState)
       \<and> dom (keys (getCurrentKeyCombination (startNewKeyCombination C keyName bitmapIndex s)))
          = insert keyName {k. \<exists>keyState. keys (getCurrentKeyCombination s) k = Some keyState
                                \<and> \<not> getBit (current keyState) keyup}
       \<and> getBit (newBitmap (Some bitmapIndex)) bitmapIndex
       \<and> newBitmap None = Bitmap False False False
       \<and> \<not> keyCombinationIncludesKeyUp (startNewKeyCombination C keyName bitmapIndex s)"
proof -
  let ?h = "keyCombinationHistory s"
  have cur: "currentOf (if length ?h > longestSequence s then tl ?h else ?h) = currentOf ?h"
    by (rule currentOf_shift [OF assms])
  have new: "keys (getCurrentKeyCombination (startNewKeyCombination C keyName bitmapIndex s))
      = (withoutKeyUps (getCurrentKeyCombination s))
          (keyName \<mapsto> (newBitmap None, newBitmap (Some bitmapIndex)))"
    using cur by (simp add: startNewKeyCombination_def getCurrentKeyCombination_def Let_def currentOf_def)
  have wo: "withoutKeyUps (getCurrentKeyCombination s) k
          = (case keys (getCurrentKeyCombination s) k of
               None \<Rightarrow> None
             | Some keyState \<Rightarrow> if getBit (current keyState) keyup then None else Some keyState)" for k
    by (simp add: withoutKeyUps_def split: option.splits)
  have A: "keys (getCurrentKeyCombination (startNewKeyCombination C keyName bitmapIndex s)) n
          = (if n = keyName then Some (newBitmap None, newBitmap (Some bitmapIndex))
             else (case keys (getCurrentKeyCombination s) n of
                     None \<Rightarrow> None
                   | Some keyState \<Rightarrow> if getBit (current keyState) keyup then None else Some keyState))"
    using new wo [of n] by simp
  have D: "dom (keys (getCurrentKeyCombination (startNewKeyCombination C keyName bitmapIndex s)))
          = insert keyName {k. \<exists>keyState. keys (getCurrentKeyCombination s) k = Some keyState
                                \<and> \<not> getBit (current keyState) keyup}"
    unfolding new by (auto simp: wo split: option.splits if_splits)
  have E: "getBit (newBitmap (Some bitmapIndex)) bitmapIndex"
    by (cases bitmapIndex) simp_all
  have F: "\<not> keyCombinationIncludesKeyUp (startNewKeyCombination C keyName bitmapIndex s)"
    by (simp add: startNewKeyCombination_def Let_def)
  show ?thesis using A wo [of n] D E F by simp
qed

text \<open>
  After keydown of a, keydown of b and keyup of a, a keydown of 1 starts a new
  combination: b is carried forward as it was, a is dropped, 1 is new.
\<close>

definition heldAndReleased :: Strategy where
  "heldAndReleased = deliverAll exampleCollaborators
     [KeydownCall (keyEvent ''a'') 1 0 neverIgnore, KeydownCall (keyEvent ''b'') 1 0 neverIgnore,
      KeyupCall (keyEvent ''a'') 1 0 neverIgnore] oneScope"

theorem new_combination_carries_held_keys_witness:
  "1 \<le> longestSequence heldAndReleased
   \<and> keys (getCurrentKeyCombination heldAndReleased) ''a''
       = Some (Bitmap True False False, Bitmap True True True)
   \<and> keys (getCurrentKeyCombination heldAndReleased) ''b''
       = Some (Bitmap False False False, Bitmap True False False)
   \<and> keys (getCurrentKeyCombination
         (startNewKeyCombination exampleCollaborators ''1'' keydown heldAndReleased)) ''a'' = None
   \<and> keys (getCurrentKeyCombination
         (startNewKeyCombination exampleCollaborators ''1'' keydown heldAndReleased)) ''b''
       = Some (Bitmap False False False, Bitmap True False False)
   \<and> keys (getCurrentKeyCombination
         (startNewKeyCombination exampleCollaborators ''1'' keydown heldAndReleased)) ''1''
       = Some (Bitmap False False False, Bitmap True False False)
   \<and> \<not> keyCombinationIncludesKeyUp
         (startNewKeyCombination exampleCollaborators ''1'' keydown heldAndReleased)"
proof -
  have L: "1 \<le> longestSequence heldAndReleased"
    unfolding heldAndReleased_def by code_simp
  have a: "keys (getCurrentKeyCombination heldAndReleased) ''a''
       = Some (Bitmap True False False, Bitmap True True True)"
    unfolding heldAndReleased_def by code_simp
  have b: "keys (getCurrentKeyCombination heldAndReleased) ''b''
       = Some (Bitmap False False False, Bitmap True False False)"
    unfolding heldAndReleased_def by code_simp
  note T = new_combination_carries_held_keys [OF L, of exampleCollaborators "''1''" keydown]
  show ?thesis
    using L a b T [of "''a''"] T [of "''b''"] T [of "''1''"]
    by (simp add: current_def)
qed

section \<open>The first sighting of a key event\<close>

fun isConditionEvaluation :: "Effect \<Rightarrow> bool" where
  "isConditionEvaluation (IgnoreConditionEvaluated event) = True"
| "isConditionEvaluation (HandlerCalled f event) = False"

definition conditionEvaluations :: "Strategy \<Rightarrow> nat" where
  "conditionEvaluations s = length (filter isConditionEvaluation (effects s))"

text \<open>
  What is observed of a state here: the key combination history, the flag that the
  current combination includes a keyup, and the number of evaluations of the caller's
  condition.
\<close>

definition observed :: "Strategy \<Rightarrow> KeyCombinationRecord list \<times> bool \<times> nat" where
  "observed s = (keyCombinationHistory s, keyCombinationIncludesKeyUp s, conditionEvaluations s)"

text \<open>
  A call of handleKeydown simulates no keypress event when it is not at the root of the
  focus tree, or when none is queued and the key has a keypress event of its own (or the
  simulation is switched off).
\<close>

definition nothingToSimulate :: "Collaborators \<Rightarrow> KeyboardEvent \<Rightarrow> nat \<Rightarrow> Strategy \<Rightarrow> bool" where
  "nothingToSimulate C event cid s =
    (\<not> isFocusTreeRoot cid s
     \<or> (keypressEventsToSimulate s = []
         \<and> (hasKeyPressEvent C (normalizeKeyName C (key event)) \<or> \<not> simulateMissingKeyPressEvents C)))"

lemma callHandler_observed:
  assumes "callHandlerIfActionNotHandled C event keyName bitmapIndex cid s = (e, s')"
  shows "observed s' = observed s"
  using assms
  by (cases rule: callHandler_cases [of C event keyName bitmapIndex cid s])
     (auto simp: observed_def conditionEvaluations_def)

lemma update_observed: "observed (updateEventPropagationHistory cid s) = observed s"
  by (simp add: observed_def conditionEvaluations_def updateEventPropagationHistory_def
      clearEventPropagationState_def)

lemma seen_observed:
  "observed (setIgnoreEventFlag event opts (setNewEventParameters event type s))
     = (keyCombinationHistory s, keyCombinationIncludesKeyUp s, conditionEvaluations s + 1)"
  by (simp add: observed_def conditionEvaluations_def setIgnoreEventFlag_def setNewEventParameters_def)

lemma seen_ignore:
  "alreadyEstablishedShouldIgnoreEvent (setIgnoreEventFlag event opts (setNewEventParameters event type s))
     = ignoreEventsCondition opts event"
  by (simp add: alreadyEstablishedShouldIgnoreEvent_def setIgnoreEventFlag_def setNewEventParameters_def)

text \<open>Recording an event reads the key combination state only.\<close>

definition combinationState :: "Strategy \<Rightarrow> KeyCombinationRecord list \<times> bool \<times> nat" where
  "combinationState s = (keyCombinationHistory s, keyCombinationIncludesKeyUp s, longestSequence s)"

lemma start_reads:
  assumes "combinationState a = combinationState b"
  shows "combinationState (startNewKeyCombination C k i a) = combinationState (startNewKeyCombination C k i b)"
proof -
  have h: "keyCombinationHistory a = keyCombinationHistory b"
    and u: "keyCombinationIncludesKeyUp a = keyCombinationIncludesKeyUp b"
    and l: "longestSequence a = longestSequence b"
    using assms by (simp_all add: combinationState_def)
  show ?thesis
    by (simp add: combinationState_def startNewKeyCombination_def Let_def h u l cong: option.case_cong if_cong)
qed

lemma add_reads:
  assumes "combinationState a = combinationState b"
  shows "combinationState (addToCurrentKeyCombination C k i a) = combinationState (addToCurrentKeyCombination C k i b)"
proof -
  have h: "keyCombinationHistory a = keyCombinationHistory b"
    and u: "keyCombinationIncludesKeyUp a = keyCombinationIncludesKeyUp b"
    and l: "longestSequence a = longestSequence b"
    using assms by (simp_all add: combinationState_def)
  show ?thesis
    by (simp add: combinationState_def addToCurrentKeyCombination_def Let_def h u l cong: option.case_cong if_cong)
qed

lemma record_reads:
  assumes "combinationState a = combinationState b"
  shows "combinationState (recordKeydown C k a) = combinationState (recordKeydown C k b)"
    and "combinationState (recordKeypress C k a) = combinationState (recordKeypress C k b)"
    and "combinationState (recordKeyup C k a) = combinationState (recordKeyup C k b)"
proof -
  have cur: "getCurrentKeyCombination a = getCurrentKeyCombination b"
    and up: "keyCombinationIncludesKeyUp a = keyCombinationIncludesKeyUp b"
    using assms by (simp_all add: combinationState_def getCurrentKeyCombination_def)
  show "combinationState (recordKeydown C k a) = combinationState (recordKeydown C k b)"
    using start_reads [OF assms] add_reads [OF assms] cur up
    by (simp add: recordKeydown_def)
  show "combinationState (recordKeypress C k a) = combinationState (recordKeypress C k b)"
    using start_reads [OF assms] add_reads [OF assms] cur
    by (simp add: recordKeypress_def)
  have "combinationState ((addToCurrentKeyCombination C k keyup a)\<lparr>keyCombinationIncludesKeyUp := True\<rparr>)
      = combinationState ((addToCurrentKeyCombination C k keyup b)\<lparr>keyCombinationIncludesKeyUp := True\<rparr>)"
    using add_reads [OF assms, of C k keyup] by (simp add: combinationState_def)
  then show "combinationState (recordKeyup C k a) = combinationState (recordKeyup C k b)"
    using start_reads [OF assms] cur
    by (simp add: recordKeyup_def)
qed

lemma seen_combinationState:
  "combinationState (setIgnoreEventFlag event opts (setNewEventParameters event type s)) = combinationState s"
  by (simp add: combinationState_def setIgnoreEventFlag_def setNewEventParameters_def)

lemma record_seen:
  "observed (recordKeydown C k (setIgnoreEventFlag event opts (setNewEventParameters event type s)))
     = (keyCombinationHistory (recordKeydown C k s), keyCombinationIncludesKeyUp (recordKeydown C k s),
        conditionEvaluations s + 1)"
  "observed (recordKeypress C k (setIgnoreEventFlag event opts (setNewEventParameters event type s)))
     = (keyCombinationHistory (recordKeypress C k s), keyCombinationIncludesKeyUp (recordKeypress C k s),
        conditionEvaluations s + 1)"
  "observed (recordKeyup C k (setIgnoreEventFlag event opts (setNewEventParameters event type s)))
     = (keyCombinationHistory (recordKeyup C k s), keyCombinationIncludesKeyUp (recordKeyup C k s),
        conditionEvaluations s + 1)"
  using record_reads [OF seen_combinationState, of C k event opts type s]
    seen_observed [of event opts type s]
  by (simp_all add: observed_def conditionEvaluations_def combinationState_def record_keeps)

text \<open>
  What the block shared by the handlers leaves to be observed, by the three cases of
  _isNewKeyEvent and the caller's condition.
\<close>

definition afterSighting ::
  "(Strategy \<Rightarrow> Strategy) \<Rightarrow> KeyboardEvent \<Rightarrow> nat \<Rightarrow> HandlerOptions \<Rightarrow> Strategy \<Rightarrow>
   KeyCombinationRecord list \<times> bool \<times> nat" where
  "afterSighting recordEvent event cid opts s =
    (if isNewKeyEvent cid s
     then (if ignoreEventsCondition opts event
           then (keyCombinationHistory s, keyCombinationIncludesKeyUp s, conditionEvaluations s + 1)
           else (keyCombinationHistory (recordEvent s), keyCombinationIncludesKeyUp (recordEvent s),
                 conditionEvaluations s + 1))
     else observed s)"

lemma noteNewKeyEvent_observed:
  assumes "observed (recordEvent (setIgnoreEventFlag event opts (setNewEventParameters event type s)))
     = (keyCombinationHistory (recordEvent s), keyCombinationIncludesKeyUp (recordEvent s),
        conditionEvaluations s + 1)"
  shows "observed (case noteNewKeyEvent recordEvent event type cid opts s of Inl x \<Rightarrow> x | Inr x \<Rightarrow> x)
         = afterSighting recordEvent event cid opts s"
  using assms
  by (simp add: noteNewKeyEvent_def afterSighting_def Let_def seen_ignore update_observed seen_observed)

lemma handleKeypress_observed:
  assumes "ftid = focusTreeId s" and "\<not> alreadyEstablishedShouldIgnoreEvent s"
  shows "observed (snd (handleKeypress C event ftid cid opts s))
         = afterSighting (recordKeypress C (normalizeKeyName C (key event))) event cid opts s"
proof -
  let ?k = "normalizeKeyName C (key event)"
  let ?n = "noteNewKeyEvent (recordKeypress C ?k) event keypress cid opts s"
  have N: "observed (case ?n of Inl x \<Rightarrow> x | Inr x \<Rightarrow> x)
         = afterSighting (recordKeypress C ?k) event cid opts s"
    by (rule noteNewKeyEvent_observed) (rule record_seen)
  show ?thesis
  proof (cases ?n)
    case (Inl x)
    then have "snd (handleKeypress C event ftid cid opts s) = x"
      using assms by (simp add: handleKeypress_def Let_def)
    then show ?thesis using N Inl by simp
  next
    case (Inr s2)
    obtain e s3 where H: "callHandlerIfActionNotHandled C event ?k keypress cid s2 = (e, s3)"
      by (cases "callHandlerIfActionNotHandled C event ?k keypress cid s2") auto
    have "snd (handleKeypress C event ftid cid opts s) = s3
          \<or> snd (handleKeypress C event ftid cid opts s) = updateEventPropagationHistory cid s3"
      using assms Inr H by (cases e) (simp_all add: handleKeypress_def Let_def)
    then have "observed (snd (handleKeypress C event ftid cid opts s)) = observed s2"
      using callHandler_observed [OF H] update_observed [of cid s3] by auto
    then show ?thesis using N Inr by simp
  qed
qed

lemma handleKeyup_observed:
  assumes "ftid = focusTreeId s" and "\<not> alreadyEstablishedShouldIgnoreEvent s"
  shows "observed (snd (handleKeyup C event ftid cid opts s))
         = afterSighting (recordKeyup C (normalizeKeyName C (key event))) event cid opts s"
proof -
  let ?k = "normalizeKeyName C (key event)"
  let ?n = "noteNewKeyEvent (recordKeyup C ?k) event keyup cid opts s"
  have N: "observed (case ?n of Inl x \<Rightarrow> x | Inr x \<Rightarrow> x)
         = afterSighting (recordKeyup C ?k) event cid opts s"
    by (rule noteNewKeyEvent_observed) (rule record_seen)
  show ?thesis
  proof (cases ?n)
    case (Inl x)
    then have "snd (handleKeyup C event ftid cid opts s) = x"
      using assms by (simp add: handleKeyup_def Let_def)
    then show ?thesis using N Inl by simp
  next
    case (Inr s2)
    obtain e s3 where H: "callHandlerIfActionNotHandled C event ?k keyup cid s2 = (e, s3)"
      by (cases "callHandlerIfActionNotHandled C event ?k keyup cid s2") auto
    have "snd (handleKeyup C event ftid cid opts s) = s3
          \<or> snd (handleKeyup C event ftid cid opts s) = updateEventPropagationHistory cid s3"
      using assms Inr H by (cases e) (simp_all add: handleKeyup_def Let_def)
    then have "observed (snd (handleKeyup C event ftid cid opts s)) = observed s2"
      using callHandler_observed [OF H] update_observed [of cid s3] by auto
    then show ?thesis using N Inr by simp
  qed
qed

lemma noteNewKeyEvent_keeps:
  assumes "registration (recordEvent (setIgnoreEventFlag event opts (setNewEventParameters event type s)))
            = registration s"
    and "keypressEventsToSimulate (recordEvent (setIgnoreEventFlag event opts (setNewEventParameters event type s)))
            = keypressEventsToSimulate s"
    and "noteNewKeyEvent recordEvent event type cid opts s = Inr s2"
  shows "registration s2 = registration s \<and> keypressEventsToSimulate s2 = keypressEventsToSimulate s"
  using assms
  by (auto simp: noteNewKeyEvent_def Let_def split: if_splits)

lemma handleKeydown_observed:
  assumes "ftid = focusTreeId s" and "\<not> alreadyEstablishedShouldIgnoreEvent s"
    and quiet: "nothingToSimulate C event cid s"
  shows "observed (snd (handleKeydown C event ftid cid opts s))
         = afterSighting (recordKeydown C (normalizeKeyName C (key event))) event cid opts s"
proof -
  let ?k = "normalizeKeyName C (key event)"
  let ?n = "noteNewKeyEvent (recordKeydown C ?k) event keydown cid opts s"
  have N: "observed (case ?n of Inl x \<Rightarrow> x | Inr x \<Rightarrow> x)
         = afterSighting (recordKeydown C ?k) event cid opts s"
    by (rule noteNewKeyEvent_observed) (rule record_seen)
  show ?thesis
  proof (cases ?n)
    case (Inl x)
    then have "snd (handleKeydown C event ftid cid opts s) = x"
      using assms by (simp add: handleKeydown_def Let_def)
    then show ?thesis using N Inl by simp
  next
    case (Inr s2)
    have s2: "registration s2 = registration s \<and> keypressEventsToSimulate s2 = keypressEventsToSimulate s"
    proof (rule noteNewKeyEvent_keeps [OF _ _ Inr])
      show "registration (recordKeydown C ?k (setIgnoreEventFlag event opts (setNewEventParameters event keydown s)))
            = registration s"
        by (simp add: record_keeps) (simp add: registration_def setIgnoreEventFlag_def setNewEventParameters_def)
      show "keypressEventsToSimulate (recordKeydown C ?k (setIgnoreEventFlag event opts (setNewEventParameters event keydown s)))
            = keypressEventsToSimulate s"
        by (simp add: record_keeps) (simp add: setIgnoreEventFlag_def setNewEventParameters_def)
    qed
    obtain e s3 where H: "callHandlerIfActionNotHandled C event ?k keydown cid s2 = (e, s3)"
      by (cases "callHandlerIfActionNotHandled C event ?k keydown cid s2") auto
    have s3: "registration s3 = registration s \<and> keypressEventsToSimulate s3 = keypressEventsToSimulate s"
      using callHandler_keeps [OF H] s2 by simp
    have O3: "observed s3 = observed s2" by (rule callHandler_observed [OF H])
    show ?thesis
    proof (cases e)
      case (Some err)
      then have "snd (handleKeydown C event ftid cid opts s) = s3"
        using assms Inr H by (simp add: handleKeydown_def Let_def)
      then show ?thesis using O3 N Inr by simp
    next
      case None
      define s4 where "s4 = (if \<not> hasKeyPressEvent C ?k \<and> simulateMissingKeyPressEvents C
                             then s3\<lparr>keypressEventsToSimulate :=
                                      keypressEventsToSimulate s3 @ [(event, ftid, cid, opts)]\<rparr>
                             else s3)"
      have O4: "observed s4 = observed s3"
        by (simp add: s4_def observed_def conditionEvaluations_def)
      have root4: "isFocusTreeRoot cid s4 = isFocusTreeRoot cid s"
        using s3 by (simp add: s4_def registration_def isFocusTreeRoot_def)
      have res: "snd (handleKeydown C event ftid cid opts s) =
            (if isFocusTreeRoot cid s4
             then (case simulateKeypresses C (keypressEventsToSimulate s4) s4 of
                     (Some err, s5) \<Rightarrow> s5
                   | (None, s5) \<Rightarrow> updateEventPropagationHistory cid (s5\<lparr>keypressEventsToSimulate := []\<rparr>))
             else updateEventPropagationHistory cid s4)"
        using assms(1,2) Inr H None
        by (auto simp: handleKeydown_def Let_def s4_def split: option.splits prod.splits)
      show ?thesis
      proof (cases "isFocusTreeRoot cid s4")
        case False
        then have "observed (snd (handleKeydown C event ftid cid opts s)) = observed s4"
          using res by (simp add: update_observed)
        then show ?thesis using O4 O3 N Inr by simp
      next
        case True
        then have "keypressEventsToSimulate s = []"
          and "hasKeyPressEvent C ?k \<or> \<not> simulateMissingKeyPressEvents C"
          using quiet root4 by (auto simp: nothingToSimulate_def)
        then have "keypressEventsToSimulate s4 = []"
          using s3 by (auto simp: s4_def)
        then have "snd (handleKeydown C event ftid cid opts s)
            = updateEventPropagationHistory cid (s4\<lparr>keypressEventsToSimulate := []\<rparr>)"
          using res True by simp
        moreover have "observed (s4\<lparr>keypressEventsToSimulate := []\<rparr>) = observed s4"
          by (simp add: observed_def conditionEvaluations_def)
        ultimately have "observed (snd (handleKeydown C event ftid cid opts s)) = observed s4"
          by (simp add: update_observed)
        then show ?thesis using O4 O3 N Inr by simp
      qed
    qed
  qed
qed

text \<open>The same from any state: a stale call and a call for an ignored event record nothing.\<close>

lemma handleKeypress_observed_any:
  "observed (snd (handleKeypress C event ftid cid opts s))
     = (if ftid = focusTreeId s \<and> \<not> alreadyEstablishedShouldIgnoreEvent s
        then afterSighting (recordKeypress C (normalizeKeyName C (key event))) event cid opts s
        else observed s)"
proof (cases "ftid = focusTreeId s \<and> \<not> alreadyEstablishedShouldIgnoreEvent s")
  case True
  then show ?thesis using handleKeypress_observed [of ftid s C event cid opts] by simp
next
  case False
  then have "snd (handleKeypress C event ftid cid opts s) = s
      \<or> snd (handleKeypress C event ftid cid opts s) = updateEventPropagationHistory cid s"
    by (auto simp: handleKeypress_def Let_def)
  then show ?thesis using False update_observed [of cid s] by auto
qed

lemma handleKeyup_observed_any:
  "observed (snd (handleKeyup C event ftid cid opts s))
     = (if ftid = focusTreeId s \<and> \<not> alreadyEstablishedShouldIgnoreEvent s
        then afterSighting (recordKeyup C (normalizeKeyName C (key event))) event cid opts s
        else observed s)"
proof (cases "ftid = focusTreeId s \<and> \<not> alreadyEstablishedShouldIgnoreEvent s")
  case True
  then show ?thesis using handleKeyup_observed [of ftid s C event cid opts] by simp
next
  case False
  then have "snd (handleKeyup C event ftid cid opts s) = s
      \<or> snd (handleKeyup C event ftid cid opts s) = updateEventPropagationHistory cid s"
    by (auto simp: handleKeyup_def Let_def)
  then show ?thesis using False update_observed [of cid s] by auto
qed

lemma handleKeydown_observed_any:
  assumes "nothingToSimulate C event cid s"
  shows "observed (snd (handleKeydown C event ftid cid opts s))
     = (if ftid = focusTreeId s \<and> \<not> alreadyEstablishedShouldIgnoreEvent s
        then afterSighting (recordKeydown C (normalizeKeyName C (key event))) event cid opts s
        else observed s)"
proof (cases "ftid = focusTreeId s \<and> \<not> alreadyEstablishedShouldIgnoreEvent s")
  case True
  then show ?thesis using handleKeydown_observed [of ftid s C event cid opts] assms by simp
next
  case False
  then have "snd (handleKeydown C event ftid cid opts s) = s
      \<or> snd (handleKeydown C event ftid cid opts s) = updateEventPropagationHistory cid s"
    by (auto simp: handleKeydown_def Let_def)
  then show ?thesis using False update_observed [of cid s] by auto
qed




text \<open>The parts of a call, and what a call records of its event at the first sighting.\<close>

fun callEvent :: "KeyEventCall \<Rightarrow> KeyboardEvent" where
  "callEvent (KeydownCall event ftid cid opts) = event"
| "callEvent (KeypressCall event ftid cid opts) = event"
| "callEvent (KeyupCall event ftid cid opts) = event"

fun callFocusTree :: "KeyEventCall \<Rightarrow> nat" where
  "callFocusTree (KeydownCall event ftid cid opts) = ftid"
| "callFocusTree (KeypressCall event ftid cid opts) = ftid"
| "callFocusTree (KeyupCall event ftid cid opts) = ftid"

fun callOptions :: "KeyEventCall \<Rightarrow> HandlerOptions" where
  "callOptions (KeydownCall event ftid cid opts) = opts"
| "callOptions (KeypressCall event ftid cid opts) = opts"
| "callOptions (KeyupCall event ftid cid opts) = opts"

fun recordCall :: "Collaborators \<Rightarrow> KeyEventCall \<Rightarrow> Strategy \<Rightarrow> Strategy" where
  "recordCall C (KeydownCall event ftid cid opts) s = recordKeydown C (normalizeKeyName C (key event)) s"
| "recordCall C (KeypressCall event ftid cid opts) s = recordKeypress C (normalizeKeyName C (key event)) s"
| "recordCall C (KeyupCall event ftid cid opts) s = recordKeyup C (normalizeKeyName C (key event)) s"

fun simulatesNothing :: "Collaborators \<Rightarrow> KeyEventCall \<Rightarrow> Strategy \<Rightarrow> bool" where
  "simulatesNothing C (KeydownCall event ftid cid opts) s = nothingToSimulate C event cid s"
| "simulatesNothing C (KeypressCall event ftid cid opts) s = True"
| "simulatesNothing C (KeyupCall event ftid cid opts) s = True"

lemma afterSighting_same:
  "f s = g s \<Longrightarrow> afterSighting f event cid opts s = afterSighting g event cid opts s"
  by (simp add: afterSighting_def)

lemma deliver_observed:
  assumes "simulatesNothing C c s"
  shows "observed (deliver C c s)
     = (if callFocusTree c = focusTreeId s \<and> \<not> alreadyEstablishedShouldIgnoreEvent s
        then afterSighting (recordCall C c) (callEvent c) (calledComponent c) (callOptions c) s
        else observed s)"
proof (cases c)
  case (KeydownCall event ftid cid opts)
  have "afterSighting (recordCall C (KeydownCall event f cid opts)) event cid opts s
      = afterSighting (recordKeydown C (normalizeKeyName C (key event))) event cid opts s" for f
    by (rule afterSighting_same) simp
  moreover have "nothingToSimulate C event cid s" using assms KeydownCall by simp
  ultimately show ?thesis
    using handleKeydown_observed_any [of C event cid s ftid opts] by (simp add: KeydownCall)
next
  case (KeypressCall event ftid cid opts)
  have "afterSighting (recordCall C (KeypressCall event f cid opts)) event cid opts s
      = afterSighting (recordKeypress C (normalizeKeyName C (key event))) event cid opts s" for f
    by (rule afterSighting_same) simp
  then show ?thesis
    using handleKeypress_observed_any [of C event ftid cid opts s] by (simp add: KeypressCall)
next
  case (KeyupCall event ftid cid opts)
  have "afterSighting (recordCall C (KeyupCall event f cid opts)) event cid opts s
      = afterSighting (recordKeyup C (normalizeKeyName C (key event))) event cid opts s" for f
    by (rule afterSighting_same) simp
  then show ?thesis
    using handleKeyup_observed_any [of C event ftid cid opts s] by (simp add: KeyupCall)
qed

section \<open>New and previously seen events\<close>











section \<open>The rule for keydown\<close>

text \<open>
  The strategy of one component after keydown of a, keyup of a and a second keyup of a.
  The second keyup finds the keyup of a recorded and starts a new combination, which
  holds a with its keyup recorded; _startNewKeyCombination resets the flag
  keyCombinationIncludesKeyUp all the same.
\<close>

definition releasedTwice :: Strategy where
  "releasedTwice =
    deliverAll exampleCollaborators
      [KeydownCall (keyEvent ''a'') 1 0 neverIgnore, KeyupCall (keyEvent ''a'') 1 0 neverIgnore,
       KeyupCall (keyEvent ''a'') 1 0 neverIgnore] oneScope"

text \<open>
  C5 at this state. The current combination contains a keyup, that of a, and b is not
  part of it: by the claim a keydown of b, seen for the first time and not ignored,
  starts a new combination (here it would be the combination of b alone). handleKeydown
  does not look into the combination: it reads the flag keyCombinationIncludesKeyUp,
  documented as "whether the current key combination includes at least one keyup event",
  which is false here. So the keydown of b is added to the current combination, beside
  the released a, and the history keeps its length.
\<close>

theorem keydown_after_repeated_keyup_extends_combination:
  "focusTreeId releasedTwice = 1
   \<and> \<not> ignoreEvent (eventPropagationState releasedTwice)
   \<and> isNewKeyEvent 0 releasedTwice
   \<and> \<not> ignoreEventsCondition neverIgnore (keyEvent ''b'')
   \<and> map ids (keyCombinationHistory releasedTwice) = [[''a''], [''a'']]
   \<and> keys (getCurrentKeyCombination releasedTwice) ''a''
       = Some (Bitmap False False False, Bitmap True True True)
   \<and> getBit (Bitmap True True True) keyup
   \<and> keys (getCurrentKeyCombination releasedTwice) ''b'' = None
   \<and> \<not> keyCombinationIncludesKeyUp releasedTwice
   \<and> map ids (keyCombinationHistory
         (snd (handleKeydown exampleCollaborators (keyEvent ''b'') 1 0 neverIgnore releasedTwice)))
       = [[''a''], [''a+b'']]
   \<and> keys (getCurrentKeyCombination
         (snd (handleKeydown exampleCollaborators (keyEvent ''b'') 1 0 neverIgnore releasedTwice))) ''a''
       = Some (Bitmap False False False, Bitmap True True True)
   \<and> keys (getCurrentKeyCombination
         (snd (handleKeydown exampleCollaborators (keyEvent ''b'') 1 0 neverIgnore releasedTwice))) ''b''
       = Some (Bitmap False False False, Bitmap True False False)
   \<and> map ids (keyCombinationHistory
         (startNewKeyCombination exampleCollaborators ''b'' keydown releasedTwice))
       = [[''a''], [''b'']]
   \<and> keys (getCurrentKeyCombination
         (startNewKeyCombination exampleCollaborators ''b'' keydown releasedTwice)) ''a'' = None"
  unfolding releasedTwice_def by code_simp

section \<open>Evaluations of the caller's condition\<close>












section \<open>The order in which combinations are tried\<close>

text \<open>The members that the partition holds for a size (none if the size is no key).\<close>

definition membersOfSize :: "(nat \<times> string list) list \<Rightarrow> nat \<Rightarrow> string list" where
  "membersOfSize memo k = (case map_of memo k of None \<Rightarrow> [] | Some v \<Rightarrow> v)"

text \<open>The callback of the reduce that partitions by size.\<close>

definition pushBySize :: "CombinationEntry \<Rightarrow> (nat \<times> string list) list \<Rightarrow> (nat \<times> string list) list" where
  "pushBySize c memo =
    (case map_of memo (combinationSize c) of
       None \<Rightarrow> memo @ [(combinationSize c, [combinationId c])]
     | Some members \<Rightarrow>
         map (\<lambda>(k, v). if k = combinationSize c then (k, v @ [combinationId c]) else (k, v)) memo)"

lemma partitionBySize_fold: "partitionBySize cs = fold pushBySize cs []"
  unfolding partitionBySize_def pushBySize_def ..

lemma map_of_push:
  "map_of (map (\<lambda>(k, v). if k = s then (k, v @ [i]) else (k, v)) memo) k
     = (if k = s then map_option (\<lambda>v. v @ [i]) (map_of memo k) else map_of memo k)"
  by (induction memo) auto

lemma keys_push:
  "fst \<circ> (\<lambda>(k, v). if k = s then (k, v @ [i]) else (k, v)) = fst"
  by (auto simp add: fun_eq_iff)

lemma pushBySize_members:
  "membersOfSize (pushBySize c memo) k
     = membersOfSize memo k @ (if combinationSize c = k then [combinationId c] else [])"
proof (cases "map_of memo (combinationSize c)")
  case None
  then show ?thesis
    by (auto simp add: membersOfSize_def pushBySize_def map_add_def split: option.splits)
next
  case (Some members)
  then show ?thesis
    by (auto simp add: membersOfSize_def pushBySize_def map_of_push split: option.splits)
qed

lemma pushBySize_keys:
  "set (map fst (pushBySize c memo)) = insert (combinationSize c) (set (map fst memo))"
proof (cases "map_of memo (combinationSize c)")
  case None
  then show ?thesis by (simp add: pushBySize_def)
next
  case (Some members)
  then have "combinationSize c \<in> set (map fst memo)"
    by (metis map_of_eq_None_iff option.distinct(1) set_map)
  then show ?thesis using Some by (auto simp add: pushBySize_def keys_push)
qed

lemma pushBySize_distinct:
  "distinct (map fst memo) \<Longrightarrow> distinct (map fst (pushBySize c memo))"
proof (cases "map_of memo (combinationSize c)")
  case None
  assume "distinct (map fst memo)"
  moreover have "combinationSize c \<notin> set (map fst memo)"
    using None by (metis map_of_eq_None_iff set_map)
  ultimately show ?thesis using None by (simp add: pushBySize_def)
next
  case (Some members)
  assume "distinct (map fst memo)"
  then show ?thesis using Some by (simp add: pushBySize_def keys_push)
qed

lemma fold_pushBySize:
  "membersOfSize (fold pushBySize cs memo) k
     = membersOfSize memo k @ map combinationId (filter (\<lambda>c. combinationSize c = k) cs)
   \<and> set (map fst (fold pushBySize cs memo)) = set (map fst memo) \<union> combinationSize ` set cs
   \<and> (distinct (map fst memo) \<longrightarrow> distinct (map fst (fold pushBySize cs memo)))"
proof (induction cs arbitrary: memo)
  case Nil
  show ?case by simp
next
  case (Cons c cs)
  show ?case
    using Cons.IH [of "pushBySize c memo"] pushBySize_members [of c memo k]
      pushBySize_keys [of c memo] pushBySize_distinct [of memo c]
    by auto
qed

text \<open>Blocks of equal size, concatenated along a list of distinct sizes.\<close>

lemma blocks_mset:
  "distinct ks \<Longrightarrow>
   mset (concat (map (\<lambda>k. filter (\<lambda>c. size_of c = k) cs) ks))
     = mset (filter (\<lambda>c. size_of c \<in> set ks) cs)"
proof (induction ks)
  case Nil
  show ?case by simp
next
  case (Cons k ks)
  have "mset (filter (\<lambda>c. size_of c = k) cs) + mset (filter (\<lambda>c. size_of c \<in> set ks) cs)
      = mset (filter (\<lambda>c. size_of c \<in> set (k # ks)) cs)"
    using Cons.prems by (induction cs) auto
  then show ?case using Cons by simp
qed

lemma blocks_filter:
  "distinct ks \<Longrightarrow> s \<in> set ks \<Longrightarrow>
   filter (\<lambda>c. size_of c = s) (concat (map (\<lambda>k. filter (\<lambda>c. size_of c = k) cs) ks))
     = filter (\<lambda>c. size_of c = s) cs"
proof (induction ks)
  case Nil
  then show ?case by simp
next
  case (Cons k ks)
  have none: "s \<notin> set js \<Longrightarrow>
      filter (\<lambda>c. size_of c = s) (concat (map (\<lambda>k. filter (\<lambda>c. size_of c = k) cs) js)) = []" for js
    by (induction js) (auto simp add: filter_empty_conv)
  show ?case
  proof (cases "s = k")
    case True
    then have "s \<notin> set ks" using Cons.prems by simp
    then show ?thesis using True none [of ks] by simp
  next
    case False
    then have "s \<in> set ks" using Cons.prems by simp
    moreover have "filter (\<lambda>c. size_of c = s) (filter (\<lambda>c. size_of c = k) cs) = []"
      using False by (auto simp add: filter_empty_conv)
    ultimately show ?thesis using Cons by simp
  qed
qed

lemma blocks_sorted:
  fixes size_of :: "'a \<Rightarrow> nat"
  shows "sorted (rev ks) \<Longrightarrow>
   sorted (map (\<lambda>c. - int (size_of c)) (concat (map (\<lambda>k. filter (\<lambda>c. size_of c = k) cs) ks)))"
proof (induction ks)
  case Nil
  show ?case by simp
next
  case (Cons k ks)
  have "sorted (rev ks)" and below: "\<forall>j \<in> set ks. j \<le> k"
    using Cons.prems by (auto simp add: sorted_append)
  then have "sorted (map (\<lambda>c. - int (size_of c)) (concat (map (\<lambda>k. filter (\<lambda>c. size_of c = k) cs) ks)))"
    using Cons.IH by simp
  moreover have "sorted (map (\<lambda>c. - int (size_of c)) (filter (\<lambda>c. size_of c = k) cs))"
    by (induction cs) auto
  ultimately show ?case using below by (auto simp add: sorted_append)
qed

lemma blocks_sort_key:
  fixes size_of :: "'a \<Rightarrow> nat"
  assumes "distinct ks" and "sorted (rev ks)" and "size_of ` set cs \<subseteq> set ks"
  shows "concat (map (\<lambda>k. filter (\<lambda>c. size_of c = k) cs) ks) = sort_key (\<lambda>c. - int (size_of c)) cs"
proof (rule properties_for_sort_key [symmetric])
  let ?ys = "concat (map (\<lambda>k. filter (\<lambda>c. size_of c = k) cs) ks)"
  have "filter (\<lambda>c. size_of c \<in> set ks) cs = cs"
    using assms(3) by (auto simp add: filter_id_conv)
  then show "mset ?ys = mset cs" using blocks_mset [OF assms(1), of size_of cs] by simp
  show "sorted (map (\<lambda>c. - int (size_of c)) ?ys)" by (rule blocks_sorted [OF assms(2)])
  fix x assume "x \<in> set ?ys"
  then have "x \<in> set cs" by auto
  then have "size_of x \<in> set ks" using assms(3) by auto
  then show "filter (\<lambda>c. - int (size_of x) = - int (size_of c)) ?ys
           = filter (\<lambda>c. - int (size_of x) = - int (size_of c)) cs"
    using blocks_filter [OF assms(1), of "size_of x" size_of cs]
    by (simp add: eq_commute [of "size_of x"])
qed

lemma orderCombinations_sort_key:
  "orderCombinations combos
     = map combinationId (sort_key (\<lambda>c. - int (combinationSize c)) (map snd combos))"
proof -
  let ?cs = "map snd combos"
  let ?P = "partitionBySize ?cs"
  let ?ks = "rev (sort (map fst ?P))"
  have members: "membersOfSize ?P k = map combinationId (filter (\<lambda>c. combinationSize c = k) ?cs)" for k
    using fold_pushBySize [of ?cs "[]" k] by (simp add: partitionBySize_fold membersOfSize_def)
  have keys: "set (map fst ?P) = combinationSize ` set ?cs" and dist: "distinct (map fst ?P)"
    using fold_pushBySize [of ?cs "[]" 0] by (simp_all add: partitionBySize_fold)
  have "orderCombinations combos = concat (map (membersOfSize ?P) ?ks)"
    unfolding orderCombinations_def membersOfSize_def Let_def ..
  also have "\<dots> = concat (map (\<lambda>k. map combinationId (filter (\<lambda>c. combinationSize c = k) ?cs)) ?ks)"
    using members by (metis (no_types) ext [of "membersOfSize ?P"])
  also have "\<dots> = map combinationId (concat (map (\<lambda>k. filter (\<lambda>c. combinationSize c = k) ?cs) ?ks))"
    by (simp add: map_concat comp_def)
  also have "concat (map (\<lambda>k. filter (\<lambda>c. combinationSize c = k) ?cs) ?ks)
      = sort_key (\<lambda>c. - int (combinationSize c)) ?cs"
  proof (rule blocks_sort_key)
    show "distinct ?ks" using dist by simp
    show "sorted (rev ?ks)" by simp
    show "combinationSize ` set ?cs \<subseteq> set ?ks" using keys by simp
  qed
  finally show ?thesis .
qed


text \<open>Assigning a property: the value is found under its key, the other keys keep theirs.\<close>

lemma insertProperty_map_of:
  "map_of obj k = None \<Longrightarrow> map_of (insertProperty k v obj) = (map_of obj)(k \<mapsto> v)"
proof (induction obj)
  case Nil
  show ?case by simp
next
  case (Cons e obj)
  obtain k' v' where e: "e = (k', v')" by (cases e)
  have ne: "k' \<noteq> k" and rest: "map_of obj k = None"
    using Cons.prems e by (auto split: if_splits)
  show ?case
    using Cons.IH [OF rest] ne e
    by (auto simp add: fun_eq_iff split: option.splits)
qed

lemma replaceProperty_map_of:
  "map_of (map (\<lambda>(k', v'). if k' = k then (k', v) else (k', v')) obj) j
     = (if j = k then map_option (\<lambda>x. v) (map_of obj j) else map_of obj j)"
  by (induction obj) auto

lemma putProperty_map_of: "map_of (putProperty k v obj) = (map_of obj)(k \<mapsto> v)"
proof (cases "map_of obj k")
  case None
  then show ?thesis by (simp add: putProperty_def insertProperty_map_of)
next
  case (Some x)
  then show ?thesis by (auto simp add: putProperty_def replaceProperty_map_of fun_eq_iff)
qed

text \<open>A new key that is no array index is enumerated last.\<close>

lemma insertProperty_last:
  "arrayIndex k = None \<Longrightarrow> insertProperty k v obj = obj @ [(k, v)]"
  by (induction obj) auto

lemma insertProperty_set: "set (insertProperty k v obj) = insert (k, v) (set obj)"
  by (induction obj) (auto split: option.splits if_splits)

lemma putProperty_set: "set (putProperty k v obj) \<subseteq> insert (k, v) (set obj)"
  by (auto simp add: putProperty_def insertProperty_set split: if_splits)

text \<open>
  Assigning a property keeps the enumeration in its order, array indices first and
  ascending, and leaves the other entries in the order they had.
\<close>

lemma insertProperty_keys: "fst ` set (insertProperty k v obj) = insert k (fst ` set obj)"
  by (simp add: insertProperty_set)

lemma insertProperty_enumeration:
  "enumerationOrder (map fst obj) \<Longrightarrow> enumerationOrder (map fst (insertProperty k v obj))"
proof (induction obj)
  case Nil
  show ?case by (simp add: enumerationOrder_def)
next
  case (Cons e obj)
  obtain k' v' where e: "e = (k', v')" by (cases e)
  have head: "\<forall>x \<in> fst ` set obj. enumeratedBefore k' x"
    and rest: "enumerationOrder (map fst obj)"
    using Cons.prems e by (simp_all add: enumerationOrder_def)
  have IH: "enumerationOrder (map fst (insertProperty k v obj))"
    by (rule Cons.IH [OF rest])
  show ?case
  proof (cases "arrayIndex k")
    case None
    then have "enumeratedBefore k' k"
      by (simp add: enumeratedBefore_def split: option.splits)
    then have "\<forall>x \<in> fst ` set (insertProperty k v obj). enumeratedBefore k' x"
      using head by (simp add: insertProperty_keys)
    then show ?thesis
      using IH None e by (simp add: enumerationOrder_def)
  next
    case (Some n)
    show ?thesis
    proof (cases "arrayIndex k'")
      case None
      then have "\<forall>x \<in> fst ` set obj. arrayIndex x = None"
        using head by (simp add: enumeratedBefore_def)
      then have "\<forall>x \<in> fst ` set ((k', v') # obj). enumeratedBefore k x"
        using Some None by (simp add: enumeratedBefore_def)
      then show ?thesis
        using Cons.prems Some None e by (simp add: enumerationOrder_def)
    next
      case inner: (Some n')
      show ?thesis
      proof (cases "n < n'")
        case True
        have "enumeratedBefore k x" if "x \<in> fst ` set obj" for x
          using head that Some inner True
          by (auto simp add: enumeratedBefore_def split: option.splits)
        moreover have "enumeratedBefore k k'"
          using Some inner True by (simp add: enumeratedBefore_def)
        ultimately have "\<forall>x \<in> fst ` set ((k', v') # obj). enumeratedBefore k x"
          by simp
        then show ?thesis
          using Cons.prems Some inner True e by (simp add: enumerationOrder_def)
      next
        case False
        then have "enumeratedBefore k' k"
          using Some inner by (simp add: enumeratedBefore_def)
        then have "\<forall>x \<in> fst ` set (insertProperty k v obj). enumeratedBefore k' x"
          using head by (simp add: insertProperty_keys)
        then show ?thesis
          using IH Some inner False e by (simp add: enumerationOrder_def)
      qed
    qed
  qed
qed

lemma replaceProperty_keys:
  "map fst (map (\<lambda>(k', v'). if k' = k then (k', v) else (k', v')) obj) = map fst obj"
  by (induction obj) auto

lemma putProperty_enumeration:
  assumes "enumerationOrder (map fst obj)"
  shows "enumerationOrder (map fst (putProperty k v obj))"
proof (cases "map_of obj k")
  case None
  then show ?thesis
    using insertProperty_enumeration [OF assms, of k v] by (simp add: putProperty_def)
next
  case (Some x)
  then show ?thesis
    using assms replaceProperty_keys [of k v obj] by (simp add: putProperty_def del: map_map)
qed

lemma insertProperty_others:
  "filter (\<lambda>e. fst e \<noteq> k) (insertProperty k v obj) = filter (\<lambda>e. fst e \<noteq> k) obj"
  by (induction obj) (auto split: option.splits)

lemma putProperty_others:
  "filter (\<lambda>e. fst e \<noteq> k) (putProperty k v obj) = filter (\<lambda>e. fst e \<noteq> k) obj"
proof -
  have "filter (\<lambda>e. fst e \<noteq> k) (map (\<lambda>(k', v'). if k' = k then (k', v) else (k', v')) obj)
      = filter (\<lambda>e. fst e \<noteq> k) obj"
    by (induction obj) (auto split: if_splits)
  then show ?thesis by (simp add: putProperty_def insertProperty_others)
qed


text \<open>
  The groups of a key map enumerate their combinations in this order when the key map is
  built by bindMatcher from the empty key map.
\<close>

definition enumeratedKeyMap :: "KeyMap \<Rightarrow> bool" where
  "enumeratedKeyMap keyMap =
    (case sequences keyMap of
       None \<Rightarrow> True
     | Some seqs \<Rightarrow> \<forall>(p, g) \<in> set seqs. enumerationOrder (map fst (combinations g)))"

lemma bindMatcher_enumerated:
  assumes "enumeratedKeyMap (fst acc)"
  shows "enumeratedKeyMap (fst (bindMatcher handler i m acc))"
proof -
  define keyMap where "keyMap = fst acc"
  define seqs where "seqs = (case sequences keyMap of None \<Rightarrow> [] | Some q \<Rightarrow> q)"
  define g where "g = (case map_of seqs (prefix m) of
                         None \<Rightarrow> \<lparr>combinations = [], combinationOrder = None\<rparr>
                       | Some g \<Rightarrow> g)"
  define binding where "binding = EventBinding (actionName m) (eventBitmapIndex m) handler"
  define entry where "entry =
     (case map_of (combinations g) (combinationId m) of
        None \<Rightarrow>
          \<lparr>prefix = prefix m, sequenceLength = sequenceLength m,
           combinationId = combinationId m,
           keyDictionary = keyDictionary m,
           combinationSize = combinationSize m,
           events = [eventBitmapIndex m \<mapsto> binding]\<rparr>
      | Some combination \<Rightarrow>
          combination\<lparr>events := (events combination)(eventBitmapIndex m \<mapsto> binding)\<rparr>)"
  define g' where "g' = g\<lparr>combinations := putProperty (combinationId m) entry (combinations g)\<rparr>"
  let ?K = "fst (bindMatcher handler i m acc)"
  have res: "sequences ?K = sequences keyMap
      \<or> sequences ?K = Some (putProperty (prefix m) g' seqs)"
    unfolding g'_def entry_def binding_def g_def seqs_def keyMap_def
    by (simp add: bindMatcher_def Let_def)
  have old: "enumerationOrder (map fst (combinations x))" if "(p, x) \<in> set seqs" for p x
  proof (cases "sequences keyMap")
    case None
    then show ?thesis using that by (simp add: seqs_def)
  next
    case (Some q)
    then show ?thesis
      using assms that by (auto simp add: seqs_def keyMap_def enumeratedKeyMap_def)
  qed
  have "enumerationOrder (map fst (combinations g))"
  proof (cases "map_of seqs (prefix m)")
    case None
    then show ?thesis by (simp add: g_def enumerationOrder_def)
  next
    case (Some x)
    then show ?thesis using old [OF map_of_SomeD [OF Some]] by (simp add: g_def)
  qed
  then have new: "enumerationOrder (map fst (combinations g'))"
    by (simp add: g'_def putProperty_enumeration)
  have "enumerationOrder (map fst (combinations x))"
    if "(p, x) \<in> set (putProperty (prefix m) g' seqs)" for p x
  proof -
    have "(p, x) = (prefix m, g') \<or> (p, x) \<in> set seqs"
      using that putProperty_set [of "prefix m" g' seqs] by auto
    then show ?thesis using new old by auto
  qed
  then have "enumeratedKeyMap (keyMap\<lparr>sequences := Some (putProperty (prefix m) g' seqs)\<rparr>)"
    by (auto simp add: enumeratedKeyMap_def)
  then show ?thesis
    using res assms by (auto simp add: enumeratedKeyMap_def keyMap_def)
qed

lemma emptyKeyMap_enumerated: "enumeratedKeyMap emptyKeyMap"
  by (simp add: enumeratedKeyMap_def emptyKeyMap_def)

text \<open>
  The order that a matching sequence group is given: its own if it has one, and the
  computed one otherwise; and the sequences with the order stored in the group.
\<close>

definition orderOf :: "SequenceGroup \<Rightarrow> string list" where
  "orderOf g =
    (case combinationOrder g of
       None \<Rightarrow> orderCombinations (combinations g)
     | Some ord \<Rightarrow> ord)"

definition withOrder ::
  "string \<Rightarrow> SequenceGroup \<Rightarrow> (string \<times> SequenceGroup) list \<Rightarrow> (string \<times> SequenceGroup) list" where
  "withOrder candidateId g seqs = putProperty candidateId (g\<lparr>combinationOrder := Some (orderOf g)\<rparr>) seqs"

definition ordersKept :: "(string \<times> SequenceGroup) list \<Rightarrow> (string \<times> SequenceGroup) list \<Rightarrow> bool" where
  "ordersKept seqs seqs' =
    (\<forall>p g. map_of seqs p = Some g \<longrightarrow>
       (\<exists>g'. map_of seqs' p = Some g' \<and> combinations g' = combinations g
          \<and> (case combinationOrder g of
                Some ord \<Rightarrow> combinationOrder g' = Some ord
              | None \<Rightarrow> combinationOrder g' = None
                        \<or> combinationOrder g' = Some (orderCombinations (combinations g)))))"

lemma ordersKept_refl: "ordersKept seqs seqs"
  by (auto simp add: ordersKept_def split: option.splits)

lemma ordersKept_trans:
  assumes "ordersKept a b" and "ordersKept b c"
  shows "ordersKept a c"
  unfolding ordersKept_def
proof (intro allI impI)
  fix p g assume "map_of a p = Some g"
  then obtain g1 where g1: "map_of b p = Some g1" "combinations g1 = combinations g"
    and o1: "case combinationOrder g of
                Some ord \<Rightarrow> combinationOrder g1 = Some ord
              | None \<Rightarrow> combinationOrder g1 = None
                        \<or> combinationOrder g1 = Some (orderCombinations (combinations g))"
    using assms(1) unfolding ordersKept_def by blast
  obtain g2 where g2: "map_of c p = Some g2" "combinations g2 = combinations g1"
    and o2: "case combinationOrder g1 of
                Some ord \<Rightarrow> combinationOrder g2 = Some ord
              | None \<Rightarrow> combinationOrder g2 = None
                        \<or> combinationOrder g2 = Some (orderCombinations (combinations g1))"
    using assms(2) g1(1) unfolding ordersKept_def by blast
  have "case combinationOrder g of
                Some ord \<Rightarrow> combinationOrder g2 = Some ord
              | None \<Rightarrow> combinationOrder g2 = None
                        \<or> combinationOrder g2 = Some (orderCombinations (combinations g))"
    using o1 o2 g1(2) by (auto split: option.splits)
  then show "\<exists>g'. map_of c p = Some g' \<and> combinations g' = combinations g
          \<and> (case combinationOrder g of
                Some ord \<Rightarrow> combinationOrder g' = Some ord
              | None \<Rightarrow> combinationOrder g' = None
                        \<or> combinationOrder g' = Some (orderCombinations (combinations g)))"
    using g2 g1(2) by auto
qed

lemma withOrder_kept:
  assumes "map_of seqs candidateId = Some g"
  shows "ordersKept seqs (withOrder candidateId g seqs)"
  using assms
  by (auto simp add: ordersKept_def withOrder_def orderOf_def putProperty_map_of split: option.splits)

lemma tryMatch_found:
  "tryMatchSequenceWithKeyAliases seqs sequenceIds = Some (candidateId, g)
     \<Longrightarrow> map_of seqs candidateId = Some g"
  by (auto simp add: tryMatchSequenceWithKeyAliases_def Let_def split: option.splits)

text \<open>One round of the loop over the sequence lengths.\<close>

lemma matchSequences_round:
  "matchSequences C keyName bitmapIndex h n seqs =
    (case tryMatchSequenceWithKeyAliases seqs (map ids (sliceBeforeLast n h)) of
       None \<Rightarrow>
        (case n of
           0 \<Rightarrow> (Inr None, seqs)
         | Suc m \<Rightarrow> matchSequences C keyName bitmapIndex h m seqs)
     | Some (candidateId, g) \<Rightarrow>
        (case firstMatchingCombination C keyName (currentOf h) bitmapIndex (combinations g) (orderOf g) of
           Inl e \<Rightarrow> (Inl e, withOrder candidateId g seqs)
         | Inr (Some b) \<Rightarrow>
            (case boundHandler b of
               None \<Rightarrow> (Inl TypeError, withOrder candidateId g seqs)
             | Some f \<Rightarrow> (Inr (Some f), withOrder candidateId g seqs))
         | Inr None \<Rightarrow>
            (case n of
               0 \<Rightarrow> (Inr None, withOrder candidateId g seqs)
             | Suc m \<Rightarrow> matchSequences C keyName bitmapIndex h m (withOrder candidateId g seqs))))"
  by (subst matchSequences.simps) (simp only: Let_def orderOf_def withOrder_def)

lemma matchSequences_ordersKept:
  "ordersKept seqs (snd (matchSequences C keyName bitmapIndex h n seqs))"
proof (induction n arbitrary: seqs)
  case 0
  show ?case
  proof (cases "tryMatchSequenceWithKeyAliases seqs (map ids (sliceBeforeLast 0 h))")
    case None
    then show ?thesis
      by (subst matchSequences_round) (simp add: ordersKept_refl del: matchSequences.simps)
  next
    case (Some found)
    obtain candidateId g where found: "found = (candidateId, g)" by (cases found)
    have "snd (matchSequences C keyName bitmapIndex h 0 seqs) = withOrder candidateId g seqs"
      by (subst matchSequences_round)
         (simp add: Some found del: matchSequences.simps split: sum.splits option.splits)
    then show ?thesis
      using withOrder_kept [OF tryMatch_found] Some found by simp
  qed
next
  case (Suc m)
  show ?case
  proof (cases "tryMatchSequenceWithKeyAliases seqs (map ids (sliceBeforeLast (Suc m) h))")
    case None
    then have "snd (matchSequences C keyName bitmapIndex h (Suc m) seqs)
        = snd (matchSequences C keyName bitmapIndex h m seqs)"
      by (subst matchSequences_round) (simp del: matchSequences.simps)
    then show ?thesis using Suc.IH [of seqs] by simp
  next
    case (Some found)
    obtain candidateId g where found: "found = (candidateId, g)" by (cases found)
    let ?seqs' = "withOrder candidateId g seqs"
    have kept: "ordersKept seqs ?seqs'"
      using withOrder_kept [OF tryMatch_found] Some found by simp
    have "snd (matchSequences C keyName bitmapIndex h (Suc m) seqs) = ?seqs'
        \<or> snd (matchSequences C keyName bitmapIndex h (Suc m) seqs)
            = snd (matchSequences C keyName bitmapIndex h m ?seqs')"
      by (subst (1 2) matchSequences_round)
         (simp add: Some found del: matchSequences.simps split: sum.splits option.splits)
    then show ?thesis
      using kept ordersKept_trans [OF kept Suc.IH [of ?seqs']] by auto
  qed
qed

text \<open>The inner loop calls for the first combination along the order that matches.\<close>

lemma firstMatchingCombination_first:
  "firstMatchingCombination C keyName st bitmapIndex combos ord = Inr (Some b) \<Longrightarrow>
   \<exists>i < length ord. \<exists>m. map_of combos (ord ! i) = Some m
       \<and> combinationMatchesKeys C keyName st m bitmapIndex
       \<and> events m bitmapIndex = Some b
       \<and> (\<forall>j < i. \<exists>m'. map_of combos (ord ! j) = Some m'
                \<and> \<not> combinationMatchesKeys C keyName st m' bitmapIndex)"
proof (induction ord)
  case Nil
  then show ?case by simp
next
  case (Cons cid rest)
  show ?case
  proof (cases "map_of combos cid")
    case None
    then show ?thesis using Cons.prems by simp
  next
    case (Some m)
    show ?thesis
    proof (cases "combinationMatchesKeys C keyName st m bitmapIndex")
      case True
      then have "events m bitmapIndex = Some b" using Cons.prems Some by simp
      then have "map_of combos ((cid # rest) ! 0) = Some m
       \<and> combinationMatchesKeys C keyName st m bitmapIndex
       \<and> events m bitmapIndex = Some b
       \<and> (\<forall>j < 0. \<exists>m'. map_of combos ((cid # rest) ! j) = Some m'
                \<and> \<not> combinationMatchesKeys C keyName st m' bitmapIndex)"
        using Some True by simp
      then show ?thesis by (intro exI [of _ 0]) (simp del: nth_Cons_0)
    next
      case False
      then have "firstMatchingCombination C keyName st bitmapIndex combos rest = Inr (Some b)"
        using Cons.prems Some by simp
      then obtain i m1 where i: "i < length rest" "map_of combos (rest ! i) = Some m1"
          "combinationMatchesKeys C keyName st m1 bitmapIndex" "events m1 bitmapIndex = Some b"
          "\<forall>j < i. \<exists>m'. map_of combos (rest ! j) = Some m'
                \<and> \<not> combinationMatchesKeys C keyName st m' bitmapIndex"
        using Cons.IH by blast
      have "\<forall>j < Suc i. \<exists>m'. map_of combos ((cid # rest) ! j) = Some m'
                \<and> \<not> combinationMatchesKeys C keyName st m' bitmapIndex"
      proof (intro allI impI)
        fix j assume "j < Suc i"
        then show "\<exists>m'. map_of combos ((cid # rest) ! j) = Some m'
                \<and> \<not> combinationMatchesKeys C keyName st m' bitmapIndex"
          using i(5) Some False by (cases j) auto
      qed
      then have "Suc i < length (cid # rest) \<and> (\<exists>m. map_of combos ((cid # rest) ! Suc i) = Some m
       \<and> combinationMatchesKeys C keyName st m bitmapIndex
       \<and> events m bitmapIndex = Some b
       \<and> (\<forall>j < Suc i. \<exists>m'. map_of combos ((cid # rest) ! j) = Some m'
                \<and> \<not> combinationMatchesKeys C keyName st m' bitmapIndex))"
        using i by auto
      then show ?thesis by blast
    qed
  qed
qed


text \<open>
  The bound of arrayIndex compared in the integers, which evaluates without counting up
  to it.
\<close>

lemma arrayIndex_code [code]:
  "arrayIndex k =
    (if k = [] then None
     else if hd k = CHR ''0'' \<and> length k > 1 then None
     else (case decimalValue k 0 of
             None \<Rightarrow> None
           | Some n \<Rightarrow> if int n < 4294967295 then Some n else None))"
  by (simp add: arrayIndex_def split: option.splits)

text \<open>
  Examples. A component that binds three actions to keydown, in the order b, Shift+a, a,
  and one that binds two actions to the digit keys, in the order 2, 1; and what the key
  map of a component holds after resolution: for each prefix, the ids of the
  combinations as Object.values enumerates them, and the order stored.
\<close>

definition combinationMatcher ::
  "string \<Rightarrow> string list \<Rightarrow> KeyEventBitmapIndex \<Rightarrow> string \<Rightarrow> ActionConfiguration" where
  "combinationMatcher i ks bitmapIndex name =
    \<lparr>prefix = [], sequenceLength = 1, combinationId = i, keyDictionary = ks,
     combinationSize = length ks, actionName = name, eventBitmapIndex = bitmapIndex\<rparr>"

definition letterKeys :: Strategy where
  "letterKeys = focusedStrategy
     [\<lparr>actions = [(''B'', [combinationMatcher ''b'' [''b''] keydown ''B'']),
                  (''SA'', [combinationMatcher ''Shift+a'' [''Shift'', ''a''] keydown ''SA'']),
                  (''A'', [combinationMatcher ''a'' [''a''] keydown ''A''])],
       handlers = [(''B'', Handler 0), (''SA'', Handler 1), (''A'', Handler 2)],
       componentId = 0\<rparr>]
     (Bitmap True False False)"

definition digitKeys :: Strategy where
  "digitKeys = focusedStrategy
     [\<lparr>actions = [(''TWO'', [combinationMatcher ''2'' [''2''] keydown ''TWO'']),
                  (''ONE'', [combinationMatcher ''1'' [''1''] keydown ''ONE''])],
       handlers = [(''TWO'', Handler 2), (''ONE'', Handler 1)],
       componentId = 0\<rparr>]
     (Bitmap True False False)"

definition groupOrders :: "Strategy \<Rightarrow> nat \<Rightarrow> (string \<times> string list \<times> string list option) list" where
  "groupOrders s cid =
    (case keyMaps (resolution s) of
       None \<Rightarrow> []
     | Some kms \<Rightarrow>
        (case nthOpt kms cid of
           None \<Rightarrow> []
         | Some keyMap \<Rightarrow>
            (case sequences keyMap of
               None \<Rightarrow> []
             | Some seqs \<Rightarrow> map (\<lambda>(p, g). (p, map fst (combinations g), combinationOrder g)) seqs)))"

definition exampleEntry :: "string \<Rightarrow> string list \<Rightarrow> CombinationEntry" where
  "exampleEntry i ks =
    \<lparr>prefix = [], sequenceLength = 1, combinationId = i, keyDictionary = ks,
     combinationSize = length ks,
     events = [keydown \<mapsto> EventBinding ''ACT'' keydown (Some (Handler 0))]\<rparr>"

definition exampleGroup :: SequenceGroup where
  "exampleGroup =
    \<lparr>combinations =
        putProperty ''a'' (exampleEntry ''a'' [''a''])
          (putProperty ''Shift+a'' (exampleEntry ''Shift+a'' [''Shift'', ''a''])
            (putProperty ''b'' (exampleEntry ''b'' [''b'']) [])),
     combinationOrder = None\<rparr>"

definition aPressed :: "KeyCombinationRecord list" where
  "aPressed = [\<lparr>keys = [''a'' \<mapsto> (newBitmap None, newBitmap (Some keydown))], ids = [''a'']\<rparr>]"

text \<open>
  C7, as the code has it. The order of a sequence group is the ids of its combinations,
  taken as Object.values enumerates them and sorted by descending size, combinations of
  equal size staying as enumerated. Matching leaves every group its combinations and the
  order it has, and computes an order only for a group that has none; the group of the
  matched prefix has its order stored, and the handler called is that of the first
  combination along the order that matches the keys. The enumeration is not the order of
  registration: the ids that are array indices are enumerated first, in ascending
  numeric order, and the other ids after them. Assigning a combination keeps the
  enumeration in this order and the other combinations in the order they had, and a new
  id that is not an array index is enumerated last (so that among such ids the
  enumeration is the order of registration); the key map that bindMatcher builds from the
  empty one enumerates the combinations of every group in this order.
\<close>

theorem combinations_tried_by_size_then_enumeration:
  assumes "map_of seqs p = Some g"
  shows "orderCombinations (combinations g)
           = map combinationId (sort_key (\<lambda>c. - int (combinationSize c)) (map snd (combinations g)))
       \<and> (\<exists>g'. map_of (snd (matchSequences C keyName bitmapIndex h n seqs)) p = Some g'
              \<and> combinations g' = combinations g
              \<and> (case combinationOrder g of
                    Some ord \<Rightarrow> combinationOrder g' = Some ord
                  | None \<Rightarrow> combinationOrder g' = None
                            \<or> combinationOrder g' = Some (orderCombinations (combinations g))))
       \<and> (tryMatchSequenceWithKeyAliases seqs (map ids (sliceBeforeLast n h)) = Some (p, g) \<longrightarrow>
            (\<exists>g'. map_of (snd (matchSequences C keyName bitmapIndex h n seqs)) p = Some g'
                \<and> combinationOrder g' = Some (orderOf g))
          \<and> (\<forall>b. firstMatchingCombination C keyName (currentOf h) bitmapIndex (combinations g) (orderOf g)
                   = Inr (Some b) \<longrightarrow>
                 fst (matchSequences C keyName bitmapIndex h n seqs)
                   = (case boundHandler b of None \<Rightarrow> Inl TypeError | Some f \<Rightarrow> Inr (Some f))
               \<and> (\<exists>i < length (orderOf g). \<exists>m. map_of (combinations g) (orderOf g ! i) = Some m
                     \<and> combinationMatchesKeys C keyName (currentOf h) m bitmapIndex
                     \<and> events m bitmapIndex = Some b
                     \<and> (\<forall>j < i. \<exists>m'. map_of (combinations g) (orderOf g ! j) = Some m'
                            \<and> \<not> combinationMatchesKeys C keyName (currentOf h) m' bitmapIndex))))
       \<and> (arrayIndex i = None \<and> map_of (combinations g) i = None \<longrightarrow>
            putProperty i c (combinations g) = combinations g @ [(i, c)])
       \<and> (enumerationOrder (map fst (combinations g)) \<longrightarrow>
            enumerationOrder (map fst (putProperty i c (combinations g))))
       \<and> filter (\<lambda>e. fst e \<noteq> i) (putProperty i c (combinations g))
            = filter (\<lambda>e. fst e \<noteq> i) (combinations g)
       \<and> enumeratedKeyMap emptyKeyMap
       \<and> (enumeratedKeyMap keyMap \<longrightarrow>
            enumeratedKeyMap (fst (bindMatcher handler handlerComponentIndex keyMatcher (keyMap, dict))))
       \<and> orderOf g = (case combinationOrder g of
                         None \<Rightarrow> orderCombinations (combinations g)
                       | Some ord \<Rightarrow> ord)"
proof -
  let ?result = "matchSequences C keyName bitmapIndex h n seqs"
  have A: "orderCombinations (combinations g)
           = map combinationId (sort_key (\<lambda>c. - int (combinationSize c)) (map snd (combinations g)))"
    by (rule orderCombinations_sort_key)
  have B: "\<exists>g'. map_of (snd ?result) p = Some g'
              \<and> combinations g' = combinations g
              \<and> (case combinationOrder g of
                    Some ord \<Rightarrow> combinationOrder g' = Some ord
                  | None \<Rightarrow> combinationOrder g' = None
                            \<or> combinationOrder g' = Some (orderCombinations (combinations g)))"
    using matchSequences_ordersKept [of seqs C keyName bitmapIndex h n] assms
    unfolding ordersKept_def by blast
  have D: "arrayIndex i = None \<and> map_of (combinations g) i = None \<longrightarrow>
            putProperty i c (combinations g) = combinations g @ [(i, c)]"
    by (simp add: putProperty_def insertProperty_last)
  have E: "orderOf g = (case combinationOrder g of
                         None \<Rightarrow> orderCombinations (combinations g)
                       | Some ord \<Rightarrow> ord)"
    by (simp add: orderOf_def)
  have G: "enumerationOrder (map fst (combinations g)) \<longrightarrow>
            enumerationOrder (map fst (putProperty i c (combinations g)))"
    by (simp add: putProperty_enumeration)
  have H: "filter (\<lambda>e. fst e \<noteq> i) (putProperty i c (combinations g))
            = filter (\<lambda>e. fst e \<noteq> i) (combinations g)"
    by (rule putProperty_others)
  have I: "enumeratedKeyMap emptyKeyMap" by (rule emptyKeyMap_enumerated)
  have J: "enumeratedKeyMap keyMap \<longrightarrow>
            enumeratedKeyMap (fst (bindMatcher handler handlerComponentIndex keyMatcher (keyMap, dict)))"
    using bindMatcher_enumerated [of "(keyMap, dict)" handler handlerComponentIndex keyMatcher] by simp
  have F: "(\<exists>g'. map_of (snd ?result) p = Some g' \<and> combinationOrder g' = Some (orderOf g))
          \<and> (\<forall>b. firstMatchingCombination C keyName (currentOf h) bitmapIndex (combinations g) (orderOf g)
                   = Inr (Some b) \<longrightarrow>
                 fst ?result = (case boundHandler b of None \<Rightarrow> Inl TypeError | Some f \<Rightarrow> Inr (Some f))
               \<and> (\<exists>i < length (orderOf g). \<exists>m. map_of (combinations g) (orderOf g ! i) = Some m
                     \<and> combinationMatchesKeys C keyName (currentOf h) m bitmapIndex
                     \<and> events m bitmapIndex = Some b
                     \<and> (\<forall>j < i. \<exists>m'. map_of (combinations g) (orderOf g ! j) = Some m'
                            \<and> \<not> combinationMatchesKeys C keyName (currentOf h) m' bitmapIndex)))"
    if found: "tryMatchSequenceWithKeyAliases seqs (map ids (sliceBeforeLast n h)) = Some (p, g)"
  proof (intro conjI allI impI)
    let ?seqs' = "withOrder p g seqs"
    have stored: "map_of ?seqs' p = Some (g\<lparr>combinationOrder := Some (orderOf g)\<rparr>)"
      by (simp add: withOrder_def putProperty_map_of)
    have "snd ?result = ?seqs'
        \<or> (\<exists>m. snd ?result = snd (matchSequences C keyName bitmapIndex h m ?seqs'))"
      by (subst (1 2) matchSequences_round)
         (auto simp add: found simp del: matchSequences.simps split: sum.splits option.splits nat.splits)
    then have "ordersKept ?seqs' (snd ?result)"
      using ordersKept_refl matchSequences_ordersKept by metis
    then show "\<exists>g'. map_of (snd ?result) p = Some g' \<and> combinationOrder g' = Some (orderOf g)"
      using stored unfolding ordersKept_def by fastforce
  next
    fix b
    assume first: "firstMatchingCombination C keyName (currentOf h) bitmapIndex (combinations g) (orderOf g)
                   = Inr (Some b)"
    show "fst ?result = (case boundHandler b of None \<Rightarrow> Inl TypeError | Some f \<Rightarrow> Inr (Some f))"
      by (subst matchSequences_round)
         (simp add: found first del: matchSequences.simps split: option.splits)
    show "\<exists>i < length (orderOf g). \<exists>m. map_of (combinations g) (orderOf g ! i) = Some m
                     \<and> combinationMatchesKeys C keyName (currentOf h) m bitmapIndex
                     \<and> events m bitmapIndex = Some b
                     \<and> (\<forall>j < i. \<exists>m'. map_of (combinations g) (orderOf g ! j) = Some m'
                            \<and> \<not> combinationMatchesKeys C keyName (currentOf h) m' bitmapIndex)"
      by (rule firstMatchingCombination_first [OF first])
  qed
  show ?thesis using A B D E F G H I J by blast
qed

text \<open>
  The ids b, Shift+a and a, registered in this order, are none of them array indices:
  they are enumerated as registered and tried in the order Shift+a, b, a. The keydown of a
  calls the handler of a, and the order is stored in the group, also when the whole
  strategy handles the event. The id 7, registered after them, is enumerated first, and
  the id 10, registered before 7, after it.
\<close>

theorem combinations_tried_by_size_then_enumeration_witness:
  "map_of [([], exampleGroup)] [] = Some exampleGroup
   \<and> map fst (combinations exampleGroup) = [''b'', ''Shift+a'', ''a'']
   \<and> orderCombinations (combinations exampleGroup) = [''Shift+a'', ''b'', ''a'']
   \<and> map combinationId (sort_key (\<lambda>c. - int (combinationSize c)) (map snd (combinations exampleGroup)))
       = [''Shift+a'', ''b'', ''a'']
   \<and> fst (matchSequences exampleCollaborators ''a'' keydown aPressed 1 [([], exampleGroup)])
       = Inr (Some (Handler 0))
   \<and> map (\<lambda>(p, g). (p, combinationOrder g))
        (snd (matchSequences exampleCollaborators ''a'' keydown aPressed 1 [([], exampleGroup)]))
       = [([], Some [''Shift+a'', ''b'', ''a''])]
   \<and> groupOrders (deliver exampleCollaborators (KeydownCall (keyEvent ''a'') 1 0 neverIgnore) letterKeys) 0
       = [([], [''b'', ''Shift+a'', ''a''], Some [''Shift+a'', ''b'', ''a''])]
   \<and> effects (deliver exampleCollaborators (KeydownCall (keyEvent ''a'') 1 0 neverIgnore) letterKeys)
       = [IgnoreConditionEvaluated (keyEvent ''a''), HandlerCalled (Handler 2) (keyEvent ''a'')]
   \<and> enumerationOrder (map fst (combinations exampleGroup))
   \<and> enumerationOrder (map fst (putProperty ''7'' (exampleEntry ''7'' [''7'']) (combinations exampleGroup)))
   \<and> map fst (putProperty ''7'' (exampleEntry ''7'' [''7''])
        (putProperty ''10'' (exampleEntry ''10'' [''1'', ''0'']) (combinations exampleGroup)))
       = [''7'', ''10'', ''b'', ''Shift+a'', ''a'']
   \<and> enumeratedKeyMap emptyKeyMap
   \<and> enumeratedKeyMap
        (fst (bindMatcher (Some (Handler 0)) 0 (combinationMatcher ''2'' [''2''] keydown ''TWO'')
               (emptyKeyMap, Map.empty)))"
proof -
  have hyp: "map_of [([], exampleGroup)] [] = Some exampleGroup" by simp
  have e1: "map fst (combinations exampleGroup) = [''b'', ''Shift+a'', ''a'']" by code_simp
  have e2: "orderCombinations (combinations exampleGroup) = [''Shift+a'', ''b'', ''a'']" by code_simp
  have e3: "fst (matchSequences exampleCollaborators ''a'' keydown aPressed 1 [([], exampleGroup)])
       = Inr (Some (Handler 0))" by code_simp
  have e4: "map (\<lambda>(p, g). (p, combinationOrder g))
        (snd (matchSequences exampleCollaborators ''a'' keydown aPressed 1 [([], exampleGroup)]))
       = [([], Some [''Shift+a'', ''b'', ''a''])]" by code_simp
  have e5: "groupOrders (deliver exampleCollaborators (KeydownCall (keyEvent ''a'') 1 0 neverIgnore) letterKeys) 0
       = [([], [''b'', ''Shift+a'', ''a''], Some [''Shift+a'', ''b'', ''a''])]" by code_simp
  have e6: "effects (deliver exampleCollaborators (KeydownCall (keyEvent ''a'') 1 0 neverIgnore) letterKeys)
       = [IgnoreConditionEvaluated (keyEvent ''a''), HandlerCalled (Handler 2) (keyEvent ''a'')]"
    by code_simp
  have e7: "enumerationOrder (map fst (combinations exampleGroup))" by code_simp
  have e8: "map fst (putProperty ''7'' (exampleEntry ''7'' [''7''])
        (putProperty ''10'' (exampleEntry ''10'' [''1'', ''0'']) (combinations exampleGroup)))
       = [''7'', ''10'', ''b'', ''Shift+a'', ''a'']" by code_simp
  have e9: "enumeratedKeyMap emptyKeyMap" by code_simp
  note T = combinations_tried_by_size_then_enumeration [OF hyp,
      where i = "''7''" and c = "exampleEntry ''7'' [''7'']" and keyMap = emptyKeyMap
        and handler = "Some (Handler 0)" and handlerComponentIndex = 0
        and keyMatcher = "combinationMatcher ''2'' [''2''] keydown ''TWO''" and dict = Map.empty]
  have "orderCombinations (combinations exampleGroup)
      = map combinationId (sort_key (\<lambda>c. - int (combinationSize c)) (map snd (combinations exampleGroup)))"
    using T by blast
  moreover have "enumerationOrder (map fst (putProperty ''7'' (exampleEntry ''7'' [''7''])
        (combinations exampleGroup)))"
    using T e7 by blast
  moreover have "enumeratedKeyMap
        (fst (bindMatcher (Some (Handler 0)) 0 (combinationMatcher ''2'' [''2''] keydown ''TWO'')
               (emptyKeyMap, Map.empty)))"
    using T e9 by blast
  ultimately show ?thesis using hyp e1 e2 e3 e4 e5 e6 e7 e8 e9 by simp
qed

text \<open>
  The claim as stated fails for ids that are array indices. A component registers the
  combination 2 and then the combination 1, both of size 1; the group enumerates them as
  1, 2, and this is the order in which they are tried, not the order of registration.
\<close>

theorem tie_order_not_first_registered_counterexample:
  "map (map combinationId \<circ> snd) (actions (componentList digitKeys ! 0)) = [[''2''], [''1'']]
   \<and> groupOrders (deliver exampleCollaborators (KeydownCall (keyEvent ''2'') 1 0 neverIgnore) digitKeys) 0
       = [([], [''1'', ''2''], Some [''1'', ''2''])]
   \<and> orderCombinations
        (putProperty ''1'' (exampleEntry ''1'' [''1''])
          (putProperty ''2'' (exampleEntry ''2'' [''2'']) []))
       = [''1'', ''2'']"
  by code_simp

section \<open>States in which the handlers do not throw\<close>




lemma putProperty_keys: "fst ` set (putProperty k v obj) = insert k (fst ` set obj)"
proof -
  have "dom (map_of (putProperty k v obj)) = insert k (dom (map_of obj))"
    by (simp add: putProperty_map_of)
  then show ?thesis by (simp only: dom_map_of_conv_image_fst)
qed

lemma putProperty_not_empty: "putProperty k v obj \<noteq> []"
  using putProperty_keys [of k v obj] by auto






































section \<open>What handleKeydown returns\<close>






section \<open>The bits of the current bitset\<close>

text \<open>
  What the three handlers do with the key combination history at a first sighting, by the
  kind of the event, and the test by which each decides to start a new combination
  (keyInCurrentCombination or keyCombinationIncludesKeyUp for keydown,
  alreadySeenKeyInCurrentCombo for keypress, alreadySeenKeyEventInCombo for keyup).
\<close>

fun recordKeyEvent :: "KeyEventBitmapIndex \<Rightarrow> Collaborators \<Rightarrow> string \<Rightarrow> Strategy \<Rightarrow> Strategy" where
  "recordKeyEvent keydown C k s = recordKeydown C k s"
| "recordKeyEvent keypress C k s = recordKeypress C k s"
| "recordKeyEvent keyup C k s = recordKeyup C k s"

fun startsNewCombination :: "KeyEventBitmapIndex \<Rightarrow> string \<Rightarrow> Strategy \<Rightarrow> bool" where
  "startsNewCombination keydown k s =
    (keys (getCurrentKeyCombination s) k \<noteq> None \<or> k \<in> set objectPrototypeNames
     \<or> keyCombinationIncludesKeyUp s)"
| "startsNewCombination keypress k s =
    (case keys (getCurrentKeyCombination s) k of
       None \<Rightarrow> False
     | Some keyCombination \<Rightarrow>
         getBit (current keyCombination) keypress \<or> getBit (current keyCombination) keyup)"
| "startsNewCombination keyup k s =
    (case keys (getCurrentKeyCombination s) k of
       None \<Rightarrow> False
     | Some keyCombination \<Rightarrow> getBit (current keyCombination) keyup)"

lemma recordKeyEvent_decides:
  "recordKeyEvent i C k s =
    (if startsNewCombination i k s then startNewKeyCombination C k i s
     else if i = keyup then (addToCurrentKeyCombination C k i s)\<lparr>keyCombinationIncludesKeyUp := True\<rparr>
     else addToCurrentKeyCombination C k i s)"
  by (cases i) (simp_all add: recordKeydown_def recordKeypress_def recordKeyup_def Let_def)

text \<open>No bit of the current bitset of a key of the first combination is missing in the second.\<close>

definition bitsKept :: "KeyCombinationRecord \<Rightarrow> KeyCombinationRecord \<Rightarrow> bool" where
  "bitsKept c c' =
    (\<forall>k st. keys c k = Some st \<longrightarrow>
       (\<exists>st'. keys c' k = Some st' \<and> (\<forall>i. getBit (current st) i \<longrightarrow> getBit (current st') i)))"

lemma bitsKept_refl: "bitsKept c c"
  by (simp add: bitsKept_def)

lemma bitsKept_trans: "bitsKept a b \<Longrightarrow> bitsKept b c \<Longrightarrow> bitsKept a c"
  unfolding bitsKept_def by (meson)

lemma added_keys:
  "keys (getCurrentKeyCombination (addToCurrentKeyCombination C k i s))
     = (keys (getCurrentKeyCombination s))
         (k \<mapsto> (case keys (getCurrentKeyCombination s) k of
                  None \<Rightarrow> (newBitmap None, newBitmap (Some i))
                | Some st \<Rightarrow> (current st, newBitmap (Some i))))"
proof (cases "keyCombinationHistory s = []")
  case True
  then show ?thesis
    by (simp add: addToCurrentKeyCombination_def getCurrentKeyCombination_def currentOf_def
        emptyKeyCombination_def Let_def)
next
  case False
  then show ?thesis
    by (cases "keys (last (keyCombinationHistory s)) k")
       (simp_all add: addToCurrentKeyCombination_def getCurrentKeyCombination_def currentOf_def
          Let_def clone_def)
qed

lemma newBitmap_covers:
  "getBit (newBitmap (Some keyup)) j"
  "getBit b keypress \<or> getBit b keyup \<or> (getBit b j \<longrightarrow> getBit (newBitmap (Some keypress)) j)"
  by (cases j; cases b; simp)+

lemma added_bitsKept:
  assumes "\<not> startsNewCombination i k s"
  shows "bitsKept (getCurrentKeyCombination s) (getCurrentKeyCombination (recordKeyEvent i C k s))"
proof -
  have rec: "getCurrentKeyCombination (recordKeyEvent i C k s)
      = getCurrentKeyCombination (addToCurrentKeyCombination C k i s)"
    using assms by (simp add: recordKeyEvent_decides getCurrentKeyCombination_def)
  show ?thesis
    unfolding bitsKept_def rec added_keys
  proof (intro allI impI)
    fix k' st assume at: "keys (getCurrentKeyCombination s) k' = Some st"
    show "\<exists>st'. ((keys (getCurrentKeyCombination s))
         (k \<mapsto> (case keys (getCurrentKeyCombination s) k of
                  None \<Rightarrow> (newBitmap None, newBitmap (Some i))
                | Some st \<Rightarrow> (current st, newBitmap (Some i))))) k' = Some st'
        \<and> (\<forall>j. getBit (current st) j \<longrightarrow> getBit (current st') j)"
    proof (cases "k' = k")
      case False
      then show ?thesis using at by simp
    next
      case True
      have "getBit (current st) j \<longrightarrow> getBit (newBitmap (Some i)) j" for j
      proof (cases i)
        case keydown
        then have "keys (getCurrentKeyCombination s) k = None"
          using assms by (cases "keys (getCurrentKeyCombination s) k") auto
        then show ?thesis using at True by simp
      next
        case keypress
        then show ?thesis
          using assms at True newBitmap_covers(2) [of "current st" j] by auto
      next
        case keyup
        then show ?thesis using newBitmap_covers(1) by simp
      qed
      then show ?thesis using at True by (simp add: current_def)
    qed
  qed
qed

text \<open>
  The second state has the key combination history that events recorded one after
  another leave from the first; and the same where none of them starts a new
  combination: the events are added to one combination.
\<close>

inductive recorded :: "Collaborators \<Rightarrow> Strategy \<Rightarrow> Strategy \<Rightarrow> bool" for C where
  recorded_same: "combinationState b = combinationState a \<Longrightarrow> recorded C a b"
| recorded_event: "recorded C a m \<Longrightarrow> combinationState b = combinationState (recordKeyEvent i C k m)
     \<Longrightarrow> recorded C a b"

inductive addedOnly :: "Collaborators \<Rightarrow> Strategy \<Rightarrow> Strategy \<Rightarrow> bool" for C where
  added_same: "combinationState b = combinationState a \<Longrightarrow> addedOnly C a b"
| added_event: "addedOnly C a m \<Longrightarrow> \<not> startsNewCombination i k m
     \<Longrightarrow> combinationState b = combinationState (recordKeyEvent i C k m) \<Longrightarrow> addedOnly C a b"

lemma recorded_cong:
  assumes "recorded C a b" and "combinationState c = combinationState b"
  shows "recorded C a c"
  using assms
proof (cases rule: recorded.cases)
  case recorded_same
  then show ?thesis using assms(2) by (simp add: recorded.recorded_same)
next
  case (recorded_event m i k)
  then show ?thesis using assms(2) recorded.recorded_event [of C a m c i k] by simp
qed

lemma recorded_trans:
  assumes "recorded C a b" and "recorded C b c"
  shows "recorded C a c"
  using assms(2) assms(1)
proof (induction rule: recorded.induct)
  case (recorded_same c b)
  then show ?case using recorded_cong by blast
next
  case (recorded_event b m c i k)
  then show ?case using recorded.recorded_event by blast
qed

lemma current_reads:
  "combinationState a = combinationState b \<Longrightarrow> getCurrentKeyCombination a = getCurrentKeyCombination b"
  by (simp add: combinationState_def getCurrentKeyCombination_def)

lemma addedOnly_bitsKept:
  "addedOnly C a b \<Longrightarrow> bitsKept (getCurrentKeyCombination a) (getCurrentKeyCombination b)"
proof (induction rule: addedOnly.induct)
  case (added_same b a)
  then show ?case using current_reads [of b a] by (simp add: bitsKept_refl)
next
  case (added_event a m i k b)
  have "bitsKept (getCurrentKeyCombination m) (getCurrentKeyCombination b)"
    using added_bitsKept [OF added_event.hyps(2), of C] current_reads [OF added_event.hyps(3)]
    by simp
  then show ?case using added_event.IH bitsKept_trans by blast
qed


text \<open>The handlers change the key combination history by recording events only.\<close>

lemma recorded_refl: "recorded C a a"
  by (simp add: recorded_same)

lemma recorded_seen:
  "recorded C a (setIgnoreEventFlag event opts (setNewEventParameters event type a))"
  by (simp add: recorded_same seen_combinationState)

lemma recorded_record:
  "recorded C a (recordKeydown C k a)"
  "recorded C a (recordKeypress C k a)"
  "recorded C a (recordKeyup C k a)"
  using recorded_event [OF recorded_refl, where C = C and a = a and b = "recordKeydown C k a"
        and i = keydown and k = k]
    recorded_event [OF recorded_refl, where C = C and a = a and b = "recordKeypress C k a"
        and i = keypress and k = k]
    recorded_event [OF recorded_refl, where C = C and a = a and b = "recordKeyup C k a"
        and i = keyup and k = k]
  by simp_all

lemma recorded_call:
  assumes "callHandlerIfActionNotHandled C event keyName bitmapIndex cid a = (e, b)"
  shows "recorded C a b"
  using callHandler_keeps [OF assms]
  by (intro recorded_same) (simp add: combinationState_def registration_def)

lemma update_combinationState:
  "combinationState (updateEventPropagationHistory cid a) = combinationState a"
  by (simp add: combinationState_def updateEventPropagationHistory_def clearEventPropagationState_def)

lemma handleKeypress_recorded: "recorded C s (snd (handleKeypress C event ftid cid opts s))"
proof -
  have "\<exists>pre. recorded C s pre \<and>
      (snd (handleKeypress C event ftid cid opts s) = pre
       \<or> snd (handleKeypress C event ftid cid opts s) = updateEventPropagationHistory cid pre)"
  proof (rule handleKeypress_shape [where R = "recorded C"])
    show "\<And>a b c. recorded C a b \<Longrightarrow> recorded C b c \<Longrightarrow> recorded C a c"
      by (rule recorded_trans)
  qed (rule recorded_refl recorded_seen recorded_record recorded_call, assumption?)+
  then obtain pre where pre: "recorded C s pre"
      "snd (handleKeypress C event ftid cid opts s) = pre
       \<or> snd (handleKeypress C event ftid cid opts s) = updateEventPropagationHistory cid pre"
    by blast
  show ?thesis
    using pre recorded_cong [OF pre(1) update_combinationState [of cid pre]] by auto
qed

lemma handleKeyup_recorded: "recorded C s (snd (handleKeyup C event ftid cid opts s))"
proof -
  have "\<exists>pre. recorded C s pre \<and>
      (snd (handleKeyup C event ftid cid opts s) = pre
       \<or> snd (handleKeyup C event ftid cid opts s) = updateEventPropagationHistory cid pre)"
  proof (rule handleKeyup_shape [where R = "recorded C"])
    show "\<And>a b c. recorded C a b \<Longrightarrow> recorded C b c \<Longrightarrow> recorded C a c"
      by (rule recorded_trans)
  qed (rule recorded_refl recorded_seen recorded_record recorded_call, assumption?)+
  then obtain pre where pre: "recorded C s pre"
      "snd (handleKeyup C event ftid cid opts s) = pre
       \<or> snd (handleKeyup C event ftid cid opts s) = updateEventPropagationHistory cid pre"
    by blast
  show ?thesis
    using pre recorded_cong [OF pre(1) update_combinationState [of cid pre]] by auto
qed

lemma simulateKeypresses_recorded: "recorded C s (snd (simulateKeypresses C q s))"
proof (induction q arbitrary: s)
  case Nil
  show ?case by (simp add: recorded_refl)
next
  case (Cons x rest)
  let ?call = "handleKeypress C (fst x) (fst (snd x)) (fst (snd (snd x))) (snd (snd (snd x))) s"
  obtain r s1 where call: "?call = (r, s1)" by (cases ?call) auto
  have first: "recorded C s s1"
    using handleKeypress_recorded [of C s "fst x" "fst (snd x)" "fst (snd (snd x))" "snd (snd (snd x))"] call
    by simp
  show ?case
  proof (cases r)
    case (Inl e)
    then show ?thesis using call first by simp
  next
    case (Inr v)
    then show ?thesis using call recorded_trans [OF first Cons.IH [of s1]] by simp
  qed
qed

lemma handleKeydown_recorded: "recorded C s (snd (handleKeydown C event ftid cid opts s))"
proof -
  let ?s' = "snd (handleKeydown C event ftid cid opts s)"
  have queue: "combinationState (a\<lparr>keypressEventsToSimulate := q\<rparr>) = combinationState a" for a q
    by (simp add: combinationState_def)
  have "\<exists>pre. recorded C s pre \<and> (?s' = pre \<or> ?s' = updateEventPropagationHistory cid pre
           \<or> (\<exists>s4. (s4 = pre \<or> s4 = pre\<lparr>keypressEventsToSimulate :=
                                         keypressEventsToSimulate pre @ [(event, ftid, cid, opts)]\<rparr>) \<and>
                 ((\<not> isFocusTreeRoot cid s4 \<and> ?s' = updateEventPropagationHistory cid s4)
                  \<or> (isFocusTreeRoot cid s4 \<and>
                      (\<exists>e s5. simulateKeypresses C (keypressEventsToSimulate s4) s4 = (e, s5) \<and>
                         (?s' = s5
                          \<or> ?s' = updateEventPropagationHistory cid (s5\<lparr>keypressEventsToSimulate := []\<rparr>)))))))"
  proof (rule handleKeydown_shape [where R = "recorded C"])
    show "\<And>a b c. recorded C a b \<Longrightarrow> recorded C b c \<Longrightarrow> recorded C a c"
      by (rule recorded_trans)
  qed (rule recorded_refl recorded_seen recorded_record recorded_call, assumption?)+
  then obtain pre where pre: "recorded C s pre"
    and shape: "?s' = pre \<or> ?s' = updateEventPropagationHistory cid pre
           \<or> (\<exists>s4. (s4 = pre \<or> s4 = pre\<lparr>keypressEventsToSimulate :=
                                         keypressEventsToSimulate pre @ [(event, ftid, cid, opts)]\<rparr>) \<and>
                 ((\<not> isFocusTreeRoot cid s4 \<and> ?s' = updateEventPropagationHistory cid s4)
                  \<or> (isFocusTreeRoot cid s4 \<and>
                      (\<exists>e s5. simulateKeypresses C (keypressEventsToSimulate s4) s4 = (e, s5) \<and>
                         (?s' = s5
                          \<or> ?s' = updateEventPropagationHistory cid (s5\<lparr>keypressEventsToSimulate := []\<rparr>))))))"
    by blast
  from shape consider (a) "?s' = pre" | (b) "?s' = updateEventPropagationHistory cid pre"
    | (c) s4 where "s4 = pre \<or> s4 = pre\<lparr>keypressEventsToSimulate :=
                                         keypressEventsToSimulate pre @ [(event, ftid, cid, opts)]\<rparr>"
        "?s' = updateEventPropagationHistory cid s4"
    | (d) s4 e s5 where "s4 = pre \<or> s4 = pre\<lparr>keypressEventsToSimulate :=
                                         keypressEventsToSimulate pre @ [(event, ftid, cid, opts)]\<rparr>"
        "simulateKeypresses C (keypressEventsToSimulate s4) s4 = (e, s5)"
        "?s' = s5 \<or> ?s' = updateEventPropagationHistory cid (s5\<lparr>keypressEventsToSimulate := []\<rparr>)"
    by blast
  then show ?thesis
  proof cases
    case a
    then show ?thesis using pre by simp
  next
    case b
    then show ?thesis using recorded_cong [OF pre update_combinationState [of cid pre]] by simp
  next
    case c
    have "combinationState s4 = combinationState pre" using c(1) queue by auto
    then have "combinationState ?s' = combinationState pre"
      using c(2) update_combinationState [of cid s4] by simp
    then show ?thesis using recorded_cong [OF pre] by blast
  next
    case d
    have "combinationState s4 = combinationState pre" using d(1) queue by auto
    then have s4: "recorded C s s4" using recorded_cong [OF pre] by blast
    have "recorded C s4 s5" using simulateKeypresses_recorded [of C s4 "keypressEventsToSimulate s4"] d(2) by simp
    then have s5: "recorded C s s5" using recorded_trans [OF s4] by blast
    have "combinationState ?s' = combinationState s5"
      using d(3) update_combinationState [of cid "s5\<lparr>keypressEventsToSimulate := []\<rparr>"]
        queue [where a = s5 and q = "[]"]
      by auto
    then show ?thesis using recorded_cong [OF s5] by blast
  qed
qed

lemma deliver_recorded: "recorded C s (deliver C call s)"
  by (cases call) (simp_all add: handleKeydown_recorded handleKeypress_recorded handleKeyup_recorded)

fun callKind :: "KeyEventCall \<Rightarrow> KeyEventBitmapIndex" where
  "callKind (KeydownCall event ftid cid opts) = keydown"
| "callKind (KeypressCall event ftid cid opts) = keypress"
| "callKind (KeyupCall event ftid cid opts) = keyup"

lemma recordCall_kind:
  "recordCall C call s = recordKeyEvent (callKind call) C (normalizeKeyName C (key (callEvent call))) s"
  by (cases call) simp_all

lemma deliver_current:
  assumes "simulatesNothing C call s"
  shows "getCurrentKeyCombination (deliver C call s) = getCurrentKeyCombination s
       \<or> getCurrentKeyCombination (deliver C call s) = getCurrentKeyCombination (recordCall C call s)"
proof -
  have "fst (observed (deliver C call s)) = keyCombinationHistory s
      \<or> fst (observed (deliver C call s)) = keyCombinationHistory (recordCall C call s)"
    unfolding deliver_observed [OF assms]
    by (simp add: afterSighting_def observed_def)
  then show ?thesis by (auto simp add: observed_def getCurrentKeyCombination_def)
qed

section \<open>Bits of the current bitset are not cleared within a combination\<close>

text \<open>
  C4. The handlers change the key combination history by recording key events only, and
  a recorded event either starts a new combination or is added to the current one. Along
  events that are added to one combination, every key of the combination stays in it and
  every bit that is set in the key's current bitset stays set; so does a handler call
  that simulates no keypress event and whose event does not start a new combination.
\<close>

theorem current_bits_kept_within_combination:
  "recorded C s (deliver C call s)
   \<and> recordKeyEvent i C k s =
       (if startsNewCombination i k s then startNewKeyCombination C k i s
        else if i = keyup then (addToCurrentKeyCombination C k i s)\<lparr>keyCombinationIncludesKeyUp := True\<rparr>
        else addToCurrentKeyCombination C k i s)
   \<and> (addedOnly C s s' \<longrightarrow> bitsKept (getCurrentKeyCombination s) (getCurrentKeyCombination s'))
   \<and> (\<not> startsNewCombination i k s \<longrightarrow> addedOnly C s (recordKeyEvent i C k s))
   \<and> (simulatesNothing C call s
        \<and> \<not> startsNewCombination (callKind call) (normalizeKeyName C (key (callEvent call))) s \<longrightarrow>
        bitsKept (getCurrentKeyCombination s) (getCurrentKeyCombination (deliver C call s)))"
proof -
  have A: "recorded C s (deliver C call s)" by (rule deliver_recorded)
  have B: "recordKeyEvent i C k s =
       (if startsNewCombination i k s then startNewKeyCombination C k i s
        else if i = keyup then (addToCurrentKeyCombination C k i s)\<lparr>keyCombinationIncludesKeyUp := True\<rparr>
        else addToCurrentKeyCombination C k i s)"
    by (rule recordKeyEvent_decides)
  have D: "bitsKept (getCurrentKeyCombination s) (getCurrentKeyCombination s')" if "addedOnly C s s'"
    using that by (rule addedOnly_bitsKept)
  have E: "addedOnly C s (recordKeyEvent i C k s)" if "\<not> startsNewCombination i k s"
    using added_event [OF added_same [of s s], where i = i and k = k and C = C
        and b = "recordKeyEvent i C k s"] that by simp
  have F: "bitsKept (getCurrentKeyCombination s) (getCurrentKeyCombination (deliver C call s))"
    if "simulatesNothing C call s
        \<and> \<not> startsNewCombination (callKind call) (normalizeKeyName C (key (callEvent call))) s"
  proof -
    have "bitsKept (getCurrentKeyCombination s) (getCurrentKeyCombination (recordCall C call s))"
      using that added_bitsKept [of "callKind call" "normalizeKeyName C (key (callEvent call))" s C]
      by (simp add: recordCall_kind)
    then show ?thesis
      using deliver_current [of C call s] that bitsKept_refl [of "getCurrentKeyCombination s"] by auto
  qed
  show ?thesis using A B D E F by blast
qed

text \<open>
  The keydown of a and then its keypress and its keyup, at one component, are added to one
  combination: the current bitset of a gains a bit at each, the bitset before becoming
  the previous one.
\<close>

theorem current_bits_kept_within_combination_witness:
  "simulatesNothing exampleCollaborators (KeypressCall (keyEvent ''a'') 1 0 neverIgnore)
      (deliver exampleCollaborators (KeydownCall (keyEvent ''a'') 1 0 neverIgnore) oneScope)
   \<and> \<not> startsNewCombination keypress ''a''
      (deliver exampleCollaborators (KeydownCall (keyEvent ''a'') 1 0 neverIgnore) oneScope)
   \<and> keys (getCurrentKeyCombination
        (deliver exampleCollaborators (KeydownCall (keyEvent ''a'') 1 0 neverIgnore) oneScope)) ''a''
       = Some (Bitmap False False False, Bitmap True False False)
   \<and> keys (getCurrentKeyCombination
        (deliverAll exampleCollaborators
           [KeydownCall (keyEvent ''a'') 1 0 neverIgnore,
            KeypressCall (keyEvent ''a'') 1 0 neverIgnore] oneScope)) ''a''
       = Some (Bitmap True False False, Bitmap True True False)
   \<and> keys (getCurrentKeyCombination
        (deliverAll exampleCollaborators
           [KeydownCall (keyEvent ''a'') 1 0 neverIgnore,
            KeypressCall (keyEvent ''a'') 1 0 neverIgnore,
            KeyupCall (keyEvent ''a'') 1 0 neverIgnore] oneScope)) ''a''
       = Some (Bitmap True True False, Bitmap True True True)
   \<and> bitsKept
        (getCurrentKeyCombination
          (deliver exampleCollaborators (KeydownCall (keyEvent ''a'') 1 0 neverIgnore) oneScope))
        (getCurrentKeyCombination
          (deliver exampleCollaborators (KeypressCall (keyEvent ''a'') 1 0 neverIgnore)
            (deliver exampleCollaborators (KeydownCall (keyEvent ''a'') 1 0 neverIgnore) oneScope)))"
proof -
  let ?down = "deliver exampleCollaborators (KeydownCall (keyEvent ''a'') 1 0 neverIgnore) oneScope"
  have quiet: "simulatesNothing exampleCollaborators (KeypressCall (keyEvent ''a'') 1 0 neverIgnore) ?down"
    by simp
  have adds: "\<not> startsNewCombination keypress ''a'' ?down" by code_simp
  have k: "normalizeKeyName exampleCollaborators (key (keyEvent ''a'')) = ''a''" by code_simp
  have e1: "keys (getCurrentKeyCombination ?down) ''a''
       = Some (Bitmap False False False, Bitmap True False False)" by code_simp
  have e2: "keys (getCurrentKeyCombination
        (deliverAll exampleCollaborators
           [KeydownCall (keyEvent ''a'') 1 0 neverIgnore,
            KeypressCall (keyEvent ''a'') 1 0 neverIgnore] oneScope)) ''a''
       = Some (Bitmap True False False, Bitmap True True False)" by code_simp
  have e3: "keys (getCurrentKeyCombination
        (deliverAll exampleCollaborators
           [KeydownCall (keyEvent ''a'') 1 0 neverIgnore,
            KeypressCall (keyEvent ''a'') 1 0 neverIgnore,
            KeyupCall (keyEvent ''a'') 1 0 neverIgnore] oneScope)) ''a''
       = Some (Bitmap True True False, Bitmap True True True)" by code_simp
  show ?thesis
    using quiet adds k e1 e2 e3
      current_bits_kept_within_combination [of exampleCollaborators ?down
        "KeypressCall (keyEvent ''a'') 1 0 neverIgnore" keypress "''a''" ?down]
    by simp
qed

text \<open>
  With the bitmap of the model a handler bound to the keydown of Shift+a is called at the
  keydown of a while Shift is held, after the keypress event that handleKeydown has
  simulated for Shift: the current bitset of Shift still has its keydown bit.
\<close>

definition shiftA :: Strategy where
  "shiftA = focusedStrategy
     [\<lparr>actions = [(''SA'', [combinationMatcher ''Shift+a'' [''Shift'', ''a''] keydown ''SA''])],
       handlers = [(''SA'', Handler 1)],
       componentId = 0\<rparr>]
     (Bitmap True False False)"

lemma shift_combination_matches_on_keydown:
  "effects (deliverAll exampleCollaborators
      [KeydownCall (keyEvent ''Shift'') 1 0 neverIgnore,
       KeydownCall (keyEvent ''a'') 1 0 neverIgnore] shiftA)
     = [IgnoreConditionEvaluated (keyEvent ''Shift''), IgnoreConditionEvaluated (keyEvent ''Shift''),
        IgnoreConditionEvaluated (keyEvent ''a''), HandlerCalled (Handler 1) (keyEvent ''a'')]
   \<and> keys (getCurrentKeyCombination (deliverAll exampleCollaborators
      [KeydownCall (keyEvent ''Shift'') 1 0 neverIgnore,
       KeydownCall (keyEvent ''a'') 1 0 neverIgnore] shiftA)) ''Shift''
     = Some (Bitmap True False False, Bitmap True True False)"
  by code_simp

end
